theory Spec2Isabelle
  imports Complex_Main
begin


section \<open>Subspace extraction from a random forest (boing\_chooser.py)\<close>

subsection \<open>Data model\<close>

text \<open>
  An entry of the observation matrix or of the challenger (arrays of doubles, as the
  run-history transformer and the configurations give them) is a float that may be the
  not-a-number marker of an inactive hyperparameter: \<open>None\<close> is NaN, \<open>Some x\<close> is
  the finite value \<open>x\<close>. Bounds and split values are finite.
\<close>

type_synonym val = "real option"

text \<open>
  The caller's bounds are tuples of Python numbers, each an \<open>int\<close> or a \<open>float\<close>. The
  extractor keeps them in \<open>np.array(bounds)\<close>, whose dtype follows them: an integer
  array when every entry is an \<open>int\<close>, a float array as soon as one entry is a \<open>float\<close>
  (as in the bounds \<open>(0, 1.0)\<close> and \<open>(n, nan)\<close> that \<open>get_types\<close> builds; the second
  entry of a categorical bound is never read and stands here as any float).
\<close>

datatype pynum = PyInt int | PyFloat real

definition num_value :: "pynum \<Rightarrow> real" where
  "num_value n = (case n of PyInt i \<Rightarrow> real_of_int i | PyFloat x \<Rightarrow> x)"

definition is_int :: "pynum \<Rightarrow> bool" where
  "is_int n = (case n of PyInt i \<Rightarrow> True | PyFloat x \<Rightarrow> False)"

text \<open>
  The node view of a regression tree as the extractor uses it: \<open>is_a_leaf\<close>,
  \<open>get_feature_index\<close>, \<open>get_num_split_value\<close>, \<open>get_cat_split\<close> and the two children
  (\<open>get_child_index 0\<close> is the left one, \<open>get_child_index 1\<close> the right one). The cursor
  \<open>node_indices[i]\<close> of a tree is kept as the subtree it points to.
\<close>

datatype node =
  Leaf
  | Split (get_feature_index: nat) (get_num_split_value: real) (get_cat_split: "real list")
      (left_child: node) (right_child: node)

datatype py_error = IndexError | ValueError | TypeError

record ss_input =
  X :: "val list list"
  challenger :: "val list"
  trees :: "node list"
  num_min :: int
  num_max :: int
  bounds :: "(pynum \<times> pynum) list"
  cat_dims :: "nat list"
  cont_dims :: "nat list"

record ss_state =
  node_indices :: "node list"
  stop_update :: "bool list"
  ss_indices :: "bool list"
  ss_bounds_cont :: "(real \<times> real) list"
  ss_bounds_cat :: "real list list"

subsection \<open>The numpy operations used\<close>

text \<open>\<open>sum\<close> of a boolean array: the number of true entries.\<close>

definition count_true :: "bool list \<Rightarrow> nat" where
  "count_true bs = length (filter (\<lambda>b. b) bs)"

text \<open>\<open>np.where(f == dims)[0]\<close>: the positions of \<open>dims\<close> holding \<open>f\<close>.\<close>

definition where_eq :: "nat \<Rightarrow> nat list \<Rightarrow> nat list" where
  "where_eq f dims = filter (\<lambda>j. dims ! j = f) [0 ..< length dims]"

text \<open>
  \<open>ss_bounds = np.array(bounds)\<close>: the values of the bounds, and whether the array has an
  integer dtype.
\<close>

definition ss_bounds :: "ss_input \<Rightarrow> (real \<times> real) list" where
  "ss_bounds inp = map (\<lambda>(lo, hi). (num_value lo, num_value hi)) (bounds inp)"

definition int_bounds :: "ss_input \<Rightarrow> bool" where
  "int_bounds inp = (\<forall>(lo, hi) \<in> set (bounds inp). is_int lo \<and> is_int hi)"

text \<open>
  An assignment into a row of \<open>ss_bounds_cont\<close> casts to the dtype of the array: a float
  array keeps the values, an integer array truncates them towards zero.
\<close>

definition truncate_cast :: "real \<Rightarrow> real" where
  "truncate_cast x = (if 0 \<le> x then real_of_int \<lfloor>x\<rfloor> else real_of_int \<lceil>x\<rceil>)"

definition store_bound :: "ss_input \<Rightarrow> real \<times> real \<Rightarrow> real \<times> real" where
  "store_bound inp b = (if int_bounds inp then (truncate_cast (fst b), truncate_cast (snd b)) else b)"

text \<open>\<open>np.arange(n)\<close> for a float \<open>n\<close>: \<open>0, 1, ...\<close>, \<open>ceil n\<close> values.\<close>

definition arange :: "real \<Rightarrow> real list" where
  "arange n = map real [0 ..< nat \<lceil>n\<rceil>]"

text \<open>
  \<open>np.intersect1d(a, b, assume_unique=True)\<close> and \<open>np.setdiff1d(a, b)\<close> on an ascending,
  duplicate-free \<open>a\<close> (every retained set is one: it starts as an \<open>arange\<close> and is only
  replaced by results of these two operations) and a duplicate-free \<open>b\<close>: the values of
  \<open>a\<close> that occur, respectively do not occur, in \<open>b\<close>, in ascending order.
\<close>

definition intersect1d :: "real list \<Rightarrow> real list \<Rightarrow> real list" where
  "intersect1d a b = filter (\<lambda>v. v \<in> set b) a"

definition setdiff1d :: "real list \<Rightarrow> real list \<Rightarrow> real list" where
  "setdiff1d a b = filter (\<lambda>v. v \<notin> set b) a"

text \<open>Comparisons and membership with a possibly-NaN left operand: NaN compares false.\<close>

definition val_ge :: "val \<Rightarrow> real \<Rightarrow> bool" where
  "val_ge v t = (case v of None \<Rightarrow> False | Some x \<Rightarrow> t \<le> x)"

definition val_le :: "val \<Rightarrow> real \<Rightarrow> bool" where
  "val_le v t = (case v of None \<Rightarrow> False | Some x \<Rightarrow> x \<le> t)"

definition val_in :: "val \<Rightarrow> real list \<Rightarrow> bool" where
  "val_in v vs = (case v of None \<Rightarrow> False | Some x \<Rightarrow> x \<in> set vs)"

text \<open>
  \<open>X[:, f]\<close>, and whether column \<open>f\<close> exists in \<open>X\<close> and in the challenger. \<open>X\<close> is the
  list of its rows; an \<open>X\<close> without rows is taken to be as wide as the challenger.
\<close>

definition column :: "val list list \<Rightarrow> nat \<Rightarrow> val list" where
  "column xs f = map (\<lambda>row. row ! f) xs"

definition has_column :: "ss_input \<Rightarrow> nat \<Rightarrow> bool" where
  "has_column inp f = (f < length (challenger inp) \<and> (\<forall>row \<in> set (X inp). f < length row))"

text \<open>\<open>ss_indices & p(X[:, f])\<close>.\<close>

definition mask_and :: "bool list \<Rightarrow> (val \<Rightarrow> bool) \<Rightarrow> val list \<Rightarrow> bool list" where
  "mask_and m p col = map (\<lambda>(b, v). b \<and> p v) (zip m col)"

subsection \<open>One visit of a tree (the body of the loop of traverse\_forest)\<close>

text \<open>
  The two updates a visit of tree \<open>i\<close> ends with: \<open>node_indices[i] = child\<close> and
  \<open>stop_update[i] = True\<close>. Both branches below commit the tentative shrink when more than
  \<open>num_min\<close> points remain, and otherwise freeze the tree or, without the minimum check,
  only move its cursor.
\<close>

definition advance :: "nat \<Rightarrow> node \<Rightarrow> ss_state \<Rightarrow> ss_state" where
  "advance i child s = s\<lparr>node_indices := (node_indices s)[i := child]\<rparr>"

definition freeze :: "nat \<Rightarrow> ss_state \<Rightarrow> ss_state" where
  "freeze i s = s\<lparr>stop_update := (stop_update s)[i := True]\<rparr>"

definition split_categorical ::
  "ss_input \<Rightarrow> bool \<Rightarrow> nat \<Rightarrow> nat \<Rightarrow> real list \<Rightarrow> node \<Rightarrow> node \<Rightarrow> ss_state
     \<Rightarrow> py_error + ss_state" where
  "split_categorical inp check_num_min i feature_idx split_value l r s =
    (case where_eq feature_idx (cat_dims inp) of
       [] \<Rightarrow> Inl IndexError
     | cat_feature_idx # _ \<Rightarrow>
        (let retained = ss_bounds_cat s ! cat_feature_idx;
             intersect = intersect1d retained split_value
         in if length intersect = length retained then Inr (advance i l s)
            else if length intersect = 0 then Inr (advance i r s)
            else if \<not> has_column inp feature_idx then Inl IndexError
            else
              (let in_left = val_in (challenger inp ! feature_idx) intersect;
                   temp_child = (if in_left then l else r);
                   temp_node_indices =
                     (if in_left
                      then mask_and (ss_indices s) (\<lambda>v. val_in v split_value)
                             (column (X inp) feature_idx)
                      else mask_and (ss_indices s) (\<lambda>v. \<not> val_in v split_value)
                             (column (X inp) feature_idx));
                   temp_bound_ss =
                     (if in_left then intersect else setdiff1d retained split_value)
               in if int (count_true temp_node_indices) > num_min inp
                  then Inr (advance i temp_child
                         (s\<lparr>ss_bounds_cat := (ss_bounds_cat s)[cat_feature_idx := temp_bound_ss],
                            ss_indices := temp_node_indices\<rparr>))
                  else if check_num_min then Inr (freeze i s)
                  else Inr (advance i temp_child s))))"

definition split_continuous ::
  "ss_input \<Rightarrow> bool \<Rightarrow> nat \<Rightarrow> nat \<Rightarrow> nat \<Rightarrow> real \<Rightarrow> node \<Rightarrow> node \<Rightarrow> ss_state
     \<Rightarrow> py_error + ss_state" where
  "split_continuous inp check_num_min i feature_idx cont_feature_idx split_value l r s =
    (if \<not> feature_idx < length (challenger inp) then Inl IndexError
     else
      (let b = ss_bounds_cont s ! cont_feature_idx;
           go_right = val_ge (challenger inp ! feature_idx) split_value
       in if fst b \<le> split_value \<and> split_value \<le> snd b
          then
            if \<not> has_column inp feature_idx then Inl IndexError
            else
            (let temp_bound_ss = (if go_right then (split_value, snd b) else (fst b, split_value));
                 temp_node_indices =
                   (if go_right
                    then mask_and (ss_indices s) (\<lambda>v. val_ge v split_value)
                           (column (X inp) feature_idx)
                    else mask_and (ss_indices s) (\<lambda>v. val_le v split_value)
                           (column (X inp) feature_idx));
                 temp_child = (if go_right then r else l)
             in if int (count_true temp_node_indices) > num_min inp
                then Inr (advance i temp_child
                       (s\<lparr>ss_bounds_cont :=
                            (ss_bounds_cont s)[cont_feature_idx := store_bound inp temp_bound_ss],
                          ss_indices := temp_node_indices\<rparr>))
                else if check_num_min then Inr (freeze i s)
                else Inr (advance i temp_child s))
          else Inr (advance i (if go_right then r else l) s)))"

definition traverse_tree :: "ss_input \<Rightarrow> bool \<Rightarrow> nat \<Rightarrow> ss_state \<Rightarrow> py_error + ss_state" where
  "traverse_tree inp check_num_min i s =
    (if \<not> i < length (stop_update s) then Inl IndexError
     else if stop_update s ! i then Inr s
     else
      (case node_indices s ! i of
         Leaf \<Rightarrow> Inr (freeze i s)
       | Split feature_idx num_split cat_split l r \<Rightarrow>
          (case where_eq feature_idx (cont_dims inp) of
             [] \<Rightarrow> split_categorical inp check_num_min i feature_idx cat_split l r s
           | [cont_feature_idx] \<Rightarrow>
               split_continuous inp check_num_min i feature_idx cont_feature_idx num_split l r s
           | _ \<Rightarrow> Inl ValueError)))"

subsection \<open>A pass over the forest, and the two loops of passes\<close>

text \<open>
  \<open>np.random.shuffle(indices_trees)\<close> draws the visiting order from the global numpy
  generator. The generator is the sequence of its future outcomes: \<open>draws k\<close> is the
  order the \<open>k\<close>-th call of \<open>shuffle\<close> leaves in \<open>indices_trees\<close>. Call \<open>0\<close> is the one
  before the first pass, whose order is never used.
\<close>

fun traverse_forest ::
  "ss_input \<Rightarrow> bool \<Rightarrow> nat list \<Rightarrow> ss_state \<Rightarrow> py_error + ss_state" where
  "traverse_forest inp check_num_min [] s = Inr s"
| "traverse_forest inp check_num_min (i # order) s =
     (case traverse_tree inp check_num_min i s of
        Inl e \<Rightarrow> Inl e
      | Inr s' \<Rightarrow> traverse_forest inp check_num_min order s')"

partial_function (option) passes ::
  "ss_input \<Rightarrow> bool \<Rightarrow> (nat \<Rightarrow> nat list) \<Rightarrow> nat \<Rightarrow> ss_state
     \<Rightarrow> (py_error + nat \<times> ss_state) option" where
  "passes inp check_num_min draws k s =
    (if count_true (stop_update s) < length (trees inp)
     then (case traverse_forest inp check_num_min (draws k) s of
             Inl e \<Rightarrow> Some (Inl e)
           | Inr s' \<Rightarrow> passes inp check_num_min draws (Suc k) s')
     else Some (Inr (k, s)))"

declare passes.simps [code]

subsection \<open>subspace\_extraction\<close>

definition initial_state :: "ss_input \<Rightarrow> py_error + ss_state" where
  "initial_state inp =
    (if \<exists>d \<in> set (cat_dims inp) \<union> set (cont_dims inp). \<not> d < length (bounds inp)
     then Inl IndexError
     else Inr \<lparr>node_indices = trees inp,
               stop_update = replicate (length (trees inp)) False,
               ss_indices = replicate (length (X inp)) True,
               ss_bounds_cont = map (\<lambda>d. ss_bounds inp ! d) (cont_dims inp),
               ss_bounds_cat =
                 (if length (cat_dims inp) = 0 then [[]]
                  else map (\<lambda>d. arange (fst (ss_bounds inp ! d))) (cat_dims inp))\<rparr>)"

text \<open>The first loop of passes, with the minimum check.\<close>

definition first_pass ::
  "(nat \<Rightarrow> nat list) \<Rightarrow> ss_input \<Rightarrow> (py_error + nat \<times> ss_state) option" where
  "first_pass draws inp =
    (case initial_state inp of
       Inl e \<Rightarrow> Some (Inl e)
     | Inr s \<Rightarrow> passes inp True draws 1 s)"

text \<open>The second loop, run only when more than \<open>num_max\<close> points are left.\<close>

definition second_pass ::
  "(nat \<Rightarrow> nat list) \<Rightarrow> ss_input \<Rightarrow> nat \<Rightarrow> ss_state \<Rightarrow> (py_error + nat \<times> ss_state) option" where
  "second_pass draws inp k s =
    (if int (count_true (ss_indices s)) > num_max inp
     then passes inp False draws k (s\<lparr>stop_update := replicate (length (trees inp)) False\<rparr>)
     else Some (Inr (k, s)))"

definition subspace_extraction ::
  "(nat \<Rightarrow> nat list) \<Rightarrow> ss_input
     \<Rightarrow> (py_error + (real \<times> real) list \<times> real list list \<times> bool list) option" where
  "subspace_extraction draws inp =
    (case first_pass draws inp of
       None \<Rightarrow> None
     | Some (Inl e) \<Rightarrow> Some (Inl e)
     | Some (Inr (k, s)) \<Rightarrow>
        (case second_pass draws inp k s of
           None \<Rightarrow> None
         | Some (Inl e) \<Rightarrow> Some (Inl e)
         | Some (Inr (k', s')) \<Rightarrow>
             Some (Inr (ss_bounds_cont s', ss_bounds_cat s', ss_indices s'))))"

subsection \<open>Well-formed calls and states\<close>

fun wf_node :: "ss_input \<Rightarrow> node \<Rightarrow> bool" where
  "wf_node inp Leaf = True"
| "wf_node inp (Split f t vs l r) =
     (f < length (challenger inp) \<and> (f \<in> set (cont_dims inp) \<or> f \<in> set (cat_dims inp))
      \<and> distinct vs \<and> wf_node inp l \<and> wf_node inp r)"

definition wf_input :: "ss_input \<Rightarrow> bool" where
  "wf_input inp =
    ((\<forall>row \<in> set (X inp). length row = length (challenger inp))
     \<and> length (bounds inp) = length (challenger inp)
     \<and> (\<forall>d \<in> set (cat_dims inp) \<union> set (cont_dims inp). d < length (bounds inp))
     \<and> distinct (cont_dims inp) \<and> distinct (cat_dims inp)
     \<and> (\<forall>t \<in> set (trees inp). wf_node inp t))"

definition state_ok :: "ss_input \<Rightarrow> ss_state \<Rightarrow> bool" where
  "state_ok inp s =
    (length (node_indices s) = length (trees inp)
     \<and> length (stop_update s) = length (trees inp)
     \<and> length (ss_indices s) = length (X inp)
     \<and> length (ss_bounds_cont s) = length (cont_dims inp)
     \<and> length (cat_dims inp) \<le> length (ss_bounds_cat s)
     \<and> (\<forall>t \<in> set (node_indices s). wf_node inp t)
     \<and> (int_bounds inp \<longrightarrow>
            (\<forall>b \<in> set (ss_bounds_cont s). truncate_cast (fst b) = fst b \<and> truncate_cast (snd b) = snd b)))"


text \<open>
  The work left in a state: a frozen tree needs none, any other tree at most one visit
  per node below its cursor and one more to be frozen.
\<close>

definition tree_work :: "ss_state \<Rightarrow> nat \<Rightarrow> nat" where
  "tree_work s i = (if stop_update s ! i then 0 else Suc (size (node_indices s ! i)))"

definition work :: "ss_state \<Rightarrow> nat" where
  "work s = (\<Sum>i < length (stop_update s). tree_work s i)"

text \<open>Every order drawn by the generator is a permutation of the tree indices.\<close>

definition wf_draws :: "ss_input \<Rightarrow> (nat \<Rightarrow> nat list) \<Rightarrow> bool" where
  "wf_draws inp draws =
    (\<forall>k. distinct (draws k) \<and> set (draws k) = {0 ..< length (trees inp)})"

subsection \<open>Regions, membership and the relations between states\<close>



text \<open>
  The full-space region, as \<open>subspace_extraction\<close> sets it up. Without categorical
  dimensions the list of retained sets is the placeholder \<open>[()]\<close>.
\<close>

definition full_bounds_cont :: "ss_input \<Rightarrow> (real \<times> real) list" where
  "full_bounds_cont inp = map (\<lambda>d. ss_bounds inp ! d) (cont_dims inp)"

definition full_bounds_cat :: "ss_input \<Rightarrow> real list list" where
  "full_bounds_cat inp =
    (if length (cat_dims inp) = 0 then [[]]
     else map (\<lambda>d. arange (fst (ss_bounds inp ! d))) (cat_dims inp))"



text \<open>
  The region and mask held by a state, and what \<open>subspace_extraction\<close> returns of it.
\<close>

type_synonym region = "(real \<times> real) list \<times> real list list \<times> bool list"

definition region_of :: "ss_state \<Rightarrow> region" where
  "region_of s = (ss_bounds_cont s, ss_bounds_cat s, ss_indices s)"

text \<open>
  Region \<open>r\<close> has shrunk from region \<open>a\<close>: interval by interval, retained set by
  retained set and mask entry by mask entry.
\<close>

definition shrunk :: "region \<Rightarrow> region \<Rightarrow> bool" where
  "shrunk a r =
    (list_all2 (\<lambda>b b0. fst b0 \<le> fst b \<and> snd b \<le> snd b0) (fst r) (fst a)
     \<and> list_all2 (\<lambda>vs vs0. set vs \<subseteq> set vs0) (fst (snd r)) (fst (snd a))
     \<and> list_all2 (\<lambda>b b0. b \<longrightarrow> b0) (snd (snd r)) (snd (snd a)))"

subsection \<open>Observations of a call\<close>

text \<open>
  The bounds as they stand when the first loop ends, the bounds returned, and whether the
  second loop runs.
\<close>

definition first_pass_bounds ::
  "(nat \<Rightarrow> nat list) \<Rightarrow> ss_input \<Rightarrow> ((real \<times> real) list \<times> real list list) option" where
  "first_pass_bounds draws inp =
    (case first_pass draws inp of
       Some (Inr (k, s)) \<Rightarrow> Some (ss_bounds_cont s, ss_bounds_cat s)
     | _ \<Rightarrow> None)"

definition returned_bounds ::
  "(nat \<Rightarrow> nat list) \<Rightarrow> ss_input \<Rightarrow> ((real \<times> real) list \<times> real list list) option" where
  "returned_bounds draws inp =
    (case subspace_extraction draws inp of
       Some (Inr (bc, bcat, m)) \<Rightarrow> Some (bc, bcat)
     | _ \<Rightarrow> None)"

definition second_pass_runs :: "(nat \<Rightarrow> nat list) \<Rightarrow> ss_input \<Rightarrow> bool" where
  "second_pass_runs draws inp =
    (case first_pass draws inp of
       Some (Inr (k, s)) \<Rightarrow> int (count_true (ss_indices s)) > num_max inp
     | _ \<Rightarrow> False)"

text \<open>A generator whose every shuffle leaves the same order.\<close>

definition fixed_order :: "nat list \<Rightarrow> nat \<Rightarrow> nat list" where
  "fixed_order order k = order"

text \<open>
  The side of a split the challenger is on: as the test a coordinate of a row has to pass
  to stay selected, and as the interval, respectively the retained set, that the side
  leaves of the present one.
\<close>

definition challenger_side_cont :: "ss_input \<Rightarrow> nat \<Rightarrow> real \<Rightarrow> val \<Rightarrow> bool" where
  "challenger_side_cont inp f t =
    (if val_ge (challenger inp ! f) t then (\<lambda>v. val_ge v t) else (\<lambda>v. val_le v t))"

definition challenger_interval :: "ss_input \<Rightarrow> nat \<Rightarrow> real \<Rightarrow> real \<times> real \<Rightarrow> real \<times> real" where
  "challenger_interval inp f t b =
    (if val_ge (challenger inp ! f) t then (t, snd b) else (fst b, t))"

definition challenger_side_cat :: "ss_input \<Rightarrow> nat \<Rightarrow> real list \<Rightarrow> real list \<Rightarrow> val \<Rightarrow> bool" where
  "challenger_side_cat inp f retained vs =
    (if val_in (challenger inp ! f) (intersect1d retained vs)
     then (\<lambda>v. val_in v vs) else (\<lambda>v. \<not> val_in v vs))"

definition challenger_set :: "ss_input \<Rightarrow> nat \<Rightarrow> real list \<Rightarrow> real list \<Rightarrow> real list" where
  "challenger_set inp f retained vs =
    (if val_in (challenger inp ! f) (intersect1d retained vs)
     then intersect1d retained vs else setdiff1d retained vs)"

text \<open>
  A shrink is due at a split of feature \<open>f\<close>: the feature is position \<open>j\<close> of the continuous
  dimensions and the split value lies inside its present interval, respectively the
  feature is first found at position \<open>j\<close> of the categorical dimensions and the split set
  holds some but not all of its present retained values; and the challenger's side keeps
  more than \<open>num_min\<close> of the selected points.
\<close>

definition shrink_due_cont :: "ss_input \<Rightarrow> ss_state \<Rightarrow> nat \<Rightarrow> real \<Rightarrow> nat \<Rightarrow> bool" where
  "shrink_due_cont inp s f t j =
    (where_eq f (cont_dims inp) = [j]
     \<and> fst (ss_bounds_cont s ! j) \<le> t \<and> t \<le> snd (ss_bounds_cont s ! j)
     \<and> num_min inp < int (count_true (mask_and (ss_indices s)
           (challenger_side_cont inp f t) (column (X inp) f))))"

definition shrink_due_cat :: "ss_input \<Rightarrow> ss_state \<Rightarrow> nat \<Rightarrow> real list \<Rightarrow> nat \<Rightarrow> bool" where
  "shrink_due_cat inp s f vs j =
    (where_eq f (cont_dims inp) = []
     \<and> where_eq f (cat_dims inp) \<noteq> [] \<and> hd (where_eq f (cat_dims inp)) = j
     \<and> intersect1d (ss_bounds_cat s ! j) vs \<noteq> []
     \<and> length (intersect1d (ss_bounds_cat s ! j) vs) \<noteq> length (ss_bounds_cat s ! j)
     \<and> num_min inp < int (count_true (mask_and (ss_indices s)
           (challenger_side_cat inp f (ss_bounds_cat s ! j) vs) (column (X inp) f))))"

section \<open>The switching chooser (BOinGChooser.choose\_next)\<close>

subsection \<open>State and collaborators\<close>

text \<open>
  The trust-region optimizer (\<open>TuRBOSubSpace\<close>) as \<open>choose_next\<close> reads it: the initial
  configurations it has still to suggest, its length and minimal length, and the values
  observed inside it. Its field \<open>length\<close> is \<open>length_tr\<close> here.
\<close>

record turbo =
  init_configs :: "val list list"
  length_tr :: real
  length_min :: real
  ss_y :: "real list"

text \<open>What \<open>_collect_all_data_to_train_model\<close> returns.\<close>

record data =
  data_X :: "val list list"
  data_Y :: "real list"
  data_Y_raw :: "real list"
  data_configs :: "val list list"

record run_key =
  config_id :: nat
  budget :: real

text \<open>
  The fields of the chooser that \<open>choose_next\<close> reads and writes. \<open>rng\<close> is the seeded
  generator the chooser owns, as the sequence of the values its \<open>random()\<close> will return.
\<close>

record chooser =
  do_switching :: bool
  run_TuRBO :: bool
  failcount_BOinG :: int
  failcount_TurBO :: int
  optimal_value :: real
  optimal_config :: "val list option"
  ss_threshold :: real
  turbo_optimizer :: turbo
  rng :: "nat \<Rightarrow> real"
  runhistory :: "run_key list"
  min_samples_model :: nat
  currently_considered_budgets :: "real list"

text \<open>What a trial hands back, and the calls it made on the way.\<close>

datatype challengers =
  TuRBO_challengers
  | Random_search nat
  | Region_search_challengers

datatype call =
  Turbo_add_new_observations
  | Turbo_adjust_length
  | Rng_random
  | Restart_TuRBOinG
  | Model_train
  | Subspace_extraction

record trial =
  chooser_after :: chooser
  returned :: challengers
  calls :: "call list"

text \<open>
  The collaborators whose code the chooser only calls: the run-history transformer
  (\<open>transform_with_raw\<close> and \<open>get_configurations\<close> for one budget), the two mutators of the
  trust-region optimizer, the optimizer that \<open>restart_TuRBOinG\<close> builds, and the rest of a
  region-search trial (lines 304 to 456 of boing\_chooser.py).
\<close>

record collaborators =
  transform_with_raw :: "run_key list \<Rightarrow> real \<Rightarrow> data"
  adjust_length :: "real list \<Rightarrow> turbo \<Rightarrow> turbo"
  add_new_observations :: "val list list \<Rightarrow> real list \<Rightarrow> turbo \<Rightarrow> turbo"
  restart_TuRBOinG :: "data \<Rightarrow> turbo"
  region_search_trial :: "chooser \<Rightarrow> data \<Rightarrow> py_error + trial"

subsection \<open>Array operations\<close>

text \<open>\<open>a[-1:]\<close>: the last element as a list, nothing of an empty list.\<close>

definition last_one :: "'a list \<Rightarrow> 'a list" where
  "last_one xs = drop (length xs - 1) xs"

text \<open>\<open>np.argmin\<close> of a non-empty array: the first position of the minimum.\<close>

definition argmin :: "real list \<Rightarrow> nat" where
  "argmin ys = length (takeWhile (\<lambda>y. y \<noteq> Min (set ys)) ys)"

text \<open>Subtraction, product and absolute value of possibly-NaN floats: NaN propagates.\<close>

definition val_sub :: "val \<Rightarrow> val \<Rightarrow> val" where
  "val_sub a b = (case a of None \<Rightarrow> None | Some x \<Rightarrow> (case b of None \<Rightarrow> None | Some y \<Rightarrow> Some (x - y)))"

definition val_mul :: "val \<Rightarrow> val \<Rightarrow> val" where
  "val_mul a b = (case a of None \<Rightarrow> None | Some x \<Rightarrow> (case b of None \<Rightarrow> None | Some y \<Rightarrow> Some (x * y)))"

definition val_product :: "val list \<Rightarrow> val" where
  "val_product vs = fold (\<lambda>v acc. val_mul acc v) vs (Some 1)"

definition val_abs :: "val \<Rightarrow> val" where
  "val_abs v = map_option abs v"

subsection \<open>\_collect\_all\_data\_to\_train\_model\<close>

definition empty_data :: data where
  "empty_data = \<lparr>data_X = [], data_Y = [], data_Y_raw = [], data_configs = []\<rparr>"

text \<open>The loop over the budgets, from the highest down: the first with enough samples wins.\<close>

fun collect_from_budgets :: "collaborators \<Rightarrow> chooser \<Rightarrow> real list \<Rightarrow> chooser \<times> data" where
  "collect_from_budgets env c [] = (c, empty_data)"
| "collect_from_budgets env c (b # available_budgets) =
     (let d = transform_with_raw env (runhistory c) b
      in if length (data_X d) \<ge> min_samples_model c
         then (c\<lparr>currently_considered_budgets := [b]\<rparr>, d)
         else collect_from_budgets env c available_budgets)"

definition collect_all_data_to_train_model :: "collaborators \<Rightarrow> chooser \<Rightarrow> chooser \<times> data" where
  "collect_all_data_to_train_model env c =
     collect_from_budgets env c (rev (sort (remdups (map budget (runhistory c)))))"

subsection \<open>A trial in trust-region mode (lines 240 to 298)\<close>

text \<open>
  Lines 259 to 281: the test whether the trust region found a better value, with the
  update of the best value and point and of the failure counters.
\<close>

definition check_improvement :: "chooser \<Rightarrow> data \<Rightarrow> real \<Rightarrow> py_error + chooser" where
  "check_improvement c d optimal_turbo =
    (let increment = optimal_turbo - optimal_value c
     in if increment < 0
        then
          (if data_Y_raw d = [] then Inl ValueError
           else
            (let min_idx = argmin (data_Y_raw d)
             in if \<not> min_idx < length (data_X d) then Inl IndexError
                else
                 (case optimal_config c of
                    None \<Rightarrow> Inl TypeError
                  | Some old_config \<Rightarrow>
                     if length (data_X d ! min_idx) \<noteq> length old_config then Inl ValueError
                     else
                      (let cfg_diff = map (\<lambda>(a, b). val_sub a b) (zip (data_X d ! min_idx) old_config);
                           c1 = c\<lparr>optimal_value := data_Y_raw d ! min_idx,
                                  optimal_config := Some (data_X d ! min_idx)\<rparr>
                       in if increment < - (1 / 1000) * \<bar>optimal_value c1\<bar>
                             \<or> val_ge (val_abs (val_product cfg_diff)) (ss_threshold c1)
                          then Inr (c1\<lparr>failcount_TurBO := failcount_TurBO c1 - 1,
                                      failcount_BOinG := failcount_BOinG c1 div 2,
                                      run_TuRBO := False\<rparr>)
                          else Inr c1))))
        else Inr (c\<lparr>failcount_TurBO := failcount_TurBO c + 1\<rparr>))"

text \<open>Lines 296 to 298: hand the newest observation to the optimizer and return its challengers.\<close>

definition continue_TuRBO :: "collaborators \<Rightarrow> data \<Rightarrow> call list \<Rightarrow> chooser \<Rightarrow> trial" where
  "continue_TuRBO env d cs c =
    \<lparr>chooser_after = c\<lparr>turbo_optimizer :=
        add_new_observations env (last_one (data_X d)) (last_one (data_Y_raw d)) (turbo_optimizer c)\<rparr>,
     returned = TuRBO_challengers,
     calls = cs @ [Turbo_add_new_observations]\<rparr>"

definition choose_next_TuRBO :: "collaborators \<Rightarrow> chooser \<Rightarrow> data \<Rightarrow> py_error + trial" where
  "choose_next_TuRBO env c d =
    (if length (init_configs (turbo_optimizer c)) > 0 then Inr (continue_TuRBO env d [] c)
     else
      (let new_observations = last_one (data_Y_raw d);
           c1 = c\<lparr>turbo_optimizer := adjust_length env new_observations (turbo_optimizer c)\<rparr>
       in if length_tr (turbo_optimizer c1) < length_min (turbo_optimizer c1)
          then
            (if ss_y (turbo_optimizer c1) = [] then Inl ValueError
             else
              (case check_improvement c1 d (Min (set (ss_y (turbo_optimizer c1)))) of
                 Inl e \<Rightarrow> Inl e
               | Inr c2 \<Rightarrow>
                  (let prob_to_BOinG = (1 / 10) * real_of_int (failcount_TurBO c2);
                       rand_value = rng c2 0;
                       c3 = c2\<lparr>rng := (\<lambda>k. rng c2 (Suc k))\<rparr>
                   in if rand_value < prob_to_BOinG
                      then Inr (continue_TuRBO env d [Turbo_adjust_length, Rng_random]
                             (c3\<lparr>failcount_BOinG := failcount_BOinG c3 div 2, run_TuRBO := False\<rparr>))
                      else Inr \<lparr>chooser_after = c3\<lparr>turbo_optimizer := restart_TuRBOinG env d\<rparr>,
                               returned = TuRBO_challengers,
                               calls = [Turbo_adjust_length, Rng_random, Restart_TuRBOinG]\<rparr>)))
          else Inr (continue_TuRBO env d [Turbo_adjust_length] c1)))"

subsection \<open>choose\_next\<close>

definition choose_next :: "collaborators \<Rightarrow> chooser \<Rightarrow> py_error + trial" where
  "choose_next env c =
    (let (c0, d) = collect_all_data_to_train_model env c
     in if do_switching c0 \<and> run_TuRBO c0
        then (let (c1, d1) = collect_all_data_to_train_model env c0 in choose_next_TuRBO env c1 d1)
        else if length (data_X d) = 0
        then Inr \<lparr>chooser_after = c0, returned = Random_search 1, calls = []\<rparr>
        else region_search_trial env c0 d)"

text \<open>
  The qualifying-improvement test in the words of the specification: the improvement
  against a fraction of the best value held before the trial, or the product of the
  coordinate differences against the threshold.
\<close>

definition qualifying_improvement_spec :: "real \<Rightarrow> real \<Rightarrow> val list \<Rightarrow> real \<Rightarrow> bool" where
  "qualifying_improvement_spec previous_best increment cfg_diff threshold =
    (increment < - (1 / 1000) * \<bar>previous_best\<bar>
     \<or> val_ge (val_abs (val_product cfg_diff)) threshold)"

subsection \<open>Observations of a trial\<close>

text \<open>
  Of a trial that returned: the mode flag, the two failure counters, what was returned and
  the calls made.
\<close>

definition outcome :: "py_error + trial \<Rightarrow> (bool \<times> int \<times> int \<times> challengers \<times> call list) option" where
  "outcome r =
    (case r of
       Inl e \<Rightarrow> None
     | Inr tr \<Rightarrow> Some (run_TuRBO (chooser_after tr), failcount_BOinG (chooser_after tr),
                       failcount_TurBO (chooser_after tr), returned tr, calls tr))"

text \<open>
  The optimizer after \<open>adjust_length\<close>, whether the trial finds it exhausted, and the
  improvement of its best value over the best value the chooser holds.
\<close>

definition adjusted :: "collaborators \<Rightarrow> chooser \<Rightarrow> data \<Rightarrow> turbo" where
  "adjusted env c d = adjust_length env (last_one (data_Y_raw d)) (turbo_optimizer c)"

definition exhausted :: "collaborators \<Rightarrow> chooser \<Rightarrow> data \<Rightarrow> bool" where
  "exhausted env c d =
    (init_configs (turbo_optimizer c) = []
     \<and> length_tr (adjusted env c d) < length_min (adjusted env c d))"

definition improvement :: "collaborators \<Rightarrow> chooser \<Rightarrow> data \<Rightarrow> real" where
  "improvement env c d = Min (set (ss_y (adjusted env c d))) - optimal_value c"

text \<open>
  Whether the test of lines 261 to 278 itself switches an exhausted trust-region trial to
  region search.
\<close>

definition switched_by_test :: "collaborators \<Rightarrow> chooser \<Rightarrow> data \<Rightarrow> bool" where
  "switched_by_test env c d =
    (case check_improvement (c\<lparr>turbo_optimizer := adjusted env c d\<rparr>) d
            (Min (set (ss_y (adjusted env c d)))) of
       Inl e \<Rightarrow> False
     | Inr c2 \<Rightarrow> run_TuRBO c \<and> \<not> run_TuRBO c2 \<and> failcount_BOinG c2 = failcount_BOinG c div 2)"

text \<open>No budget level of the run history has \<open>min_samples_model\<close> observations.\<close>

definition too_few_samples :: "collaborators \<Rightarrow> chooser \<Rightarrow> bool" where
  "too_few_samples env c =
    (\<forall>k \<in> set (runhistory c).
        length (data_X (transform_with_raw env (runhistory c) (budget k))) < min_samples_model c)"

section \<open>The acquisition function call (abstract\_acquisition\_function.py)\<close>

text \<open>
  An acquisition value is a float: finite, one of the two infinities, or not-a-number. The
  array \<open>_compute\<close> returns is a floating-point array of some dtype with one row per
  configuration (shape \<open>[N, 1]\<close> by its contract; the rows may be wider).
\<close>

datatype float = Finite real | PInf | NInf | NaN

datatype float_dtype = Float16 | Float32 | Float64 | Longdouble

record acq_array =
  acq_dtype :: float_dtype
  acq_rows :: "float list list"

text \<open>\<open>np.finfo(float).max\<close>, the largest finite double.\<close>

definition float_max :: real where
  "float_max = (2 - 1 / 2 ^ 52) * 2 ^ 1023"

text \<open>
  \<open>-np.finfo(float).max\<close> as an assignment stores it in an array of the given dtype: the
  value itself where the dtype holds it, negative infinity where it overflows.
\<close>

definition worst_score :: "float_dtype \<Rightarrow> float" where
  "worst_score dt =
    (case dt of
       Float16 \<Rightarrow> NInf
     | Float32 \<Rightarrow> NInf
     | Float64 \<Rightarrow> Finite (- float_max)
     | Longdouble \<Rightarrow> Finite (- float_max))"

definition isnan :: "float \<Rightarrow> bool" where
  "isnan v = (v = NaN)"

text \<open>\<open>np.where(np.isnan(acq))[0]\<close>: the row index of every NaN entry, in row-major order.\<close>

definition nan_rows :: "float list list \<Rightarrow> nat list" where
  "nan_rows acq = concat (map (\<lambda>i. map (\<lambda>v. i) (filter isnan (acq ! i))) [0 ..< length acq])"

text \<open>\<open>acq[idx, :] = v\<close>: every entry of every row listed in \<open>idx\<close> becomes \<open>v\<close>.\<close>

definition assign_rows :: "nat list \<Rightarrow> float \<Rightarrow> float list list \<Rightarrow> float list list" where
  "assign_rows idx v acq = fold (\<lambda>i a. a[i := map (\<lambda>w. v) (a ! i)]) idx acq"

text \<open>
  \<open>__call__\<close>, with the conversion of the configurations to an array left to the caller
  and \<open>_compute\<close> the implementation of the derived class.
\<close>

definition acquisition_call :: "('x \<Rightarrow> acq_array) \<Rightarrow> 'x \<Rightarrow> acq_array" where
  "acquisition_call compute configurations =
    (let acq = compute configurations
     in if \<exists>row \<in> set (acq_rows acq). \<exists>v \<in> set row. isnan v
        then acq\<lparr>acq_rows :=
               assign_rows (nan_rows (acq_rows acq)) (worst_score (acq_dtype acq)) (acq_rows acq)\<rparr>
        else acq)"

text \<open>A \<open>_compute\<close> that returns the same scores whatever it is given.\<close>

definition constant_compute :: "float_dtype \<Rightarrow> float list list \<Rightarrow> unit \<Rightarrow> acq_array" where
  "constant_compute dt acq configurations = \<lparr>acq_dtype = dt, acq_rows = acq\<rparr>"

subsection \<open>Concrete calls\<close>


text \<open>
  Two continuous dimensions, two trees that split one dimension each; after either split
  only one more point than \<open>num_min\<close> is left, so the tree visited second is frozen.
\<close>

definition call_two_trees :: ss_input where
  "call_two_trees =
    \<lparr>X = [[Some (9/10), Some (9/10)], [Some (8/10), Some (2/10)], [Some (2/10), Some (8/10)],
          [Some (1/10), Some (1/10)]],
     challenger = [Some (9/10), Some (9/10)],
     trees = [Split 0 (1/2) [] Leaf Leaf, Split 1 (1/2) [] Leaf Leaf],
     num_min = 1, num_max = 100,
     bounds = [(PyInt 0, PyFloat 1), (PyInt 0, PyFloat 1)], cat_dims = [], cont_dims = [0, 1]\<rparr>"



text \<open>
  One tree of depth one: four of the five points are on the challenger's side of its only
  split, and \<open>num_max = 3\<close>.
\<close>

definition call_shallow :: ss_input where
  "call_shallow =
    \<lparr>X = [[Some (9/10)], [Some (8/10)], [Some (7/10)], [Some (6/10)], [Some (1/10)]],
     challenger = [Some (9/10)],
     trees = [Split 0 (1/2) [] Leaf Leaf],
     num_min = 1, num_max = 3,
     bounds = [(PyInt 0, PyFloat 1)], cat_dims = [], cont_dims = [0]\<rparr>"

text \<open>
  One tree of depth two. The split at the root would leave a single point, so the first
  loop freezes the tree there; the split below it leaves three points.
\<close>

definition call_deep :: ss_input where
  "call_deep =
    \<lparr>X = [[Some (9/10), Some (9/10)], [Some (2/10), Some (8/10)], [Some (3/10), Some (7/10)],
          [Some (1/10), Some (1/10)]],
     challenger = [Some (9/10), Some (9/10)],
     trees = [Split 0 (1/2) [] Leaf (Split 1 (1/2) [] Leaf Leaf)],
     num_min = 1, num_max = 3,
     bounds = [(PyInt 0, PyFloat 1), (PyInt 0, PyFloat 1)], cat_dims = [], cont_dims = [0, 1]\<rparr>"

text \<open>
  The state of this call in its second loop, when the cursor has moved below the root:
  nothing is frozen, the region is still the full space.
\<close>

definition deep_below_root :: ss_state where
  "deep_below_root =
    \<lparr>node_indices = [Split 1 (1/2) [] Leaf Leaf], stop_update = [False],
     ss_indices = [True, True, True, True],
     ss_bounds_cont = [(0, 1), (0, 1)], ss_bounds_cat = [[]]\<rparr>"

text \<open>A call with \<open>num_min > num_max\<close> and more than \<open>num_min\<close> observations.\<close>

definition call_min_above_max :: ss_input where
  "call_min_above_max =
    \<lparr>X = [[Some (9/10)], [Some (8/10)], [Some (2/10)], [Some (1/10)]],
     challenger = [Some (9/10)],
     trees = [Split 0 (1/2) [] Leaf Leaf],
     num_min = 1, num_max = 0,
     bounds = [(PyInt 0, PyFloat 1)], cat_dims = [], cont_dims = [0]\<rparr>"

text \<open>A call with \<open>num_min > num_max\<close> and no more than \<open>num_min\<close> observations.\<close>

definition call_few_points :: ss_input where
  "call_few_points =
    \<lparr>X = [[Some (9/10)], [Some (8/10)], [Some (2/10)], [Some (1/10)]],
     challenger = [Some (9/10)],
     trees = [Split 0 (1/2) [] Leaf Leaf],
     num_min = 4, num_max = 2,
     bounds = [(PyInt 0, PyFloat 1)], cat_dims = [], cont_dims = [0]\<rparr>"

subsection \<open>Concrete trials\<close>

text \<open>
  Collaborators for the concrete trials: every budget has the same two observations, a
  non-improving observation halves the length of the trust region, new observations are
  appended, and a restart builds a fresh optimizer.
\<close>

definition two_observations :: "real \<Rightarrow> real \<Rightarrow> val list \<Rightarrow> data" where
  "two_observations y0 y1 x1 =
    \<lparr>data_X = [[Some (1/2), Some (1/2)], x1], data_Y = [y0, y1], data_Y_raw = [y0, y1],
     data_configs = [[Some (1/2), Some (1/2)], x1]\<rparr>"

definition fresh_turbo :: turbo where
  "fresh_turbo = \<lparr>init_configs = [], length_tr = 8/10, length_min = 2/10000, ss_y = []\<rparr>"

definition trial_env :: "data \<Rightarrow> collaborators" where
  "trial_env d =
    \<lparr>transform_with_raw = (\<lambda>rh b. d),
     adjust_length = (\<lambda>obs t. t\<lparr>length_tr := length_tr t / 2\<rparr>),
     add_new_observations = (\<lambda>xs ys t. t\<lparr>ss_y := ss_y t @ ys\<rparr>),
     restart_TuRBOinG = (\<lambda>d. fresh_turbo),
     region_search_trial = (\<lambda>c d. Inr \<lparr>chooser_after = c, returned = Region_search_challengers,
                                        calls = [Model_train, Subspace_extraction]\<rparr>)\<rparr>"

definition constant_rng :: "real \<Rightarrow> nat \<Rightarrow> real" where
  "constant_rng v k = v"

text \<open>
  A chooser in trust-region mode over two hyperparameters, holding the best value
  \<open>best\<close> at the point \<open>(1/2, 1/2)\<close>; its trust region has seen the values \<open>ys\<close> and
  its length is one halving away from exhaustion.
\<close>

definition turbo_chooser :: "real \<Rightarrow> int \<Rightarrow> real list \<Rightarrow> chooser" where
  "turbo_chooser best fails ys =
    \<lparr>do_switching = True, run_TuRBO = True, failcount_BOinG = 5, failcount_TurBO = fails,
     optimal_value = best, optimal_config = Some [Some (1/2), Some (1/2)],
     ss_threshold = (1/10) ^ 2,
     turbo_optimizer = \<lparr>init_configs = [], length_tr = 3/10000, length_min = 2/10000, ss_y = ys\<rparr>,
     rng = constant_rng (1/2),
     runhistory = [\<lparr>config_id = 0, budget = 0\<rparr>, \<lparr>config_id = 1, budget = 0\<rparr>],
     min_samples_model = 1, currently_considered_budgets = []\<rparr>"

text \<open>
  A chooser in region-search mode whose run history has one run at each of two budgets,
  with a model that asks for three samples.
\<close>

definition sparse_chooser :: chooser where
  "sparse_chooser =
    \<lparr>do_switching = True, run_TuRBO = False, failcount_BOinG = 0, failcount_TurBO = 0,
     optimal_value = 0, optimal_config = None,
     ss_threshold = (1/10) ^ 2,
     turbo_optimizer = fresh_turbo,
     rng = constant_rng (1/2),
     runhistory = [\<lparr>config_id = 0, budget = 1\<rparr>, \<lparr>config_id = 1, budget = 2\<rparr>],
     min_samples_model = 3, currently_considered_budgets = []\<rparr>"

section \<open>Properties of the extraction\<close>

subsection \<open>What one visit of a tree can do\<close>

lemma set_where_eq: "set (where_eq f dims) = {j. j < length dims \<and> dims ! j = f}"
  by (auto simp: where_eq_def)

lemma where_eq_Nil: "where_eq f dims = [] \<longleftrightarrow> f \<notin> set dims"
  by (auto simp: where_eq_def filter_empty_conv in_set_conv_nth)

lemma where_eq_hd: "where_eq f dims = j # js \<Longrightarrow> j < length dims \<and> dims ! j = f"
  using set_where_eq [of f dims] by auto

lemma where_eq_distinct:
  assumes "distinct dims"
  shows "where_eq f dims = [] \<or> (\<exists>j. where_eq f dims = [j])"
proof (cases "where_eq f dims")
  case Nil then show ?thesis by simp
next
  case (Cons j js)
  have d: "distinct (where_eq f dims)" by (simp add: where_eq_def)
  have "js = []"
  proof (cases js)
    case Nil then show ?thesis .
  next
    case (Cons j' js')
    with \<open>where_eq f dims = j # js\<close> have "j \<in> set (where_eq f dims)" "j' \<in> set (where_eq f dims)" by auto
    then have "j < length dims" "j' < length dims" "dims ! j = dims ! j'"
      by (auto simp: set_where_eq)
    with assms have "j = j'" by (simp add: nth_eq_iff_index_eq)
    with d \<open>where_eq f dims = j # js\<close> Cons show ?thesis by auto
  qed
  with Cons show ?thesis by simp
qed

lemma traverse_tree_outcome:
  assumes wf: "wf_input inp" and ok: "state_ok inp s" and i: "i < length (trees inp)"
  obtains
    (same) "stop_update s ! i" "traverse_tree inp chk i s = Inr s"
  | (frozen) "\<not> stop_update s ! i" "traverse_tree inp chk i s = Inr (freeze i s)"
  | (moved) f t vs l r c where "\<not> stop_update s ! i"
      "node_indices s ! i = Split f t vs l r" "c = l \<or> c = r"
      "traverse_tree inp chk i s = Inr (advance i c s)"
  | (cont) f t vs l r c j right where "\<not> stop_update s ! i"
      "node_indices s ! i = Split f t vs l r" "c = l \<or> c = r"
      "where_eq f (cont_dims inp) = [j]"
      "fst (ss_bounds_cont s ! j) \<le> t" "t \<le> snd (ss_bounds_cont s ! j)"
      "num_min inp < int (count_true (mask_and (ss_indices s)
          (if right then (\<lambda>v. val_ge v t) else (\<lambda>v. val_le v t)) (column (X inp) f)))"
      "traverse_tree inp chk i s = Inr (advance i c
         (s\<lparr>ss_bounds_cont := (ss_bounds_cont s)[j :=
               store_bound inp (if right then (t, snd (ss_bounds_cont s ! j)) else (fst (ss_bounds_cont s ! j), t))],
            ss_indices := mask_and (ss_indices s)
               (if right then (\<lambda>v. val_ge v t) else (\<lambda>v. val_le v t)) (column (X inp) f)\<rparr>))"
  | (cat) f t vs l r c j js inl where "\<not> stop_update s ! i"
      "node_indices s ! i = Split f t vs l r" "c = l \<or> c = r"
      "where_eq f (cont_dims inp) = []" "where_eq f (cat_dims inp) = j # js"
      "intersect1d (ss_bounds_cat s ! j) vs \<noteq> []"
      "length (intersect1d (ss_bounds_cat s ! j) vs) \<noteq> length (ss_bounds_cat s ! j)"
      "num_min inp < int (count_true (mask_and (ss_indices s)
          (if inl then (\<lambda>v. val_in v vs) else (\<lambda>v. \<not> val_in v vs)) (column (X inp) f)))"
      "traverse_tree inp chk i s = Inr (advance i c
         (s\<lparr>ss_bounds_cat := (ss_bounds_cat s)[j :=
               (if inl then intersect1d (ss_bounds_cat s ! j) vs
                else setdiff1d (ss_bounds_cat s ! j) vs)],
            ss_indices := mask_and (ss_indices s)
               (if inl then (\<lambda>v. val_in v vs) else (\<lambda>v. \<not> val_in v vs)) (column (X inp) f)\<rparr>))"
proof (cases "stop_update s ! i")
  case True
  with ok i have "traverse_tree inp chk i s = Inr s" by (simp add: traverse_tree_def state_ok_def)
  with True same show ?thesis by blast
next
  case ns: False
  from ok i have il: "i < length (stop_update s)" "i < length (node_indices s)"
    by (simp_all add: state_ok_def)
  show ?thesis
  proof (cases "node_indices s ! i")
    case Leaf
    with ns il have "traverse_tree inp chk i s = Inr (freeze i s)" by (simp add: traverse_tree_def)
    with ns frozen show ?thesis by blast
  next
    case (Split f t vs l r)
    from il ok have "wf_node inp (node_indices s ! i)" by (simp add: state_ok_def)
    with Split have fl: "f < length (challenger inp)"
      and fd: "f \<in> set (cont_dims inp) \<or> f \<in> set (cat_dims inp)" by simp_all
    from wf fl have hc: "has_column inp f" by (simp add: has_column_def wf_input_def)
    from wf have dc: "distinct (cont_dims inp)" by (simp add: wf_input_def)
    show ?thesis
    proof (cases "where_eq f (cont_dims inp)")
      case Nil
      with fd have "f \<in> set (cat_dims inp)" by (simp add: where_eq_Nil)
      then obtain j js where jj: "where_eq f (cat_dims inp) = j # js"
        using where_eq_Nil [of f "cat_dims inp"] by (cases "where_eq f (cat_dims inp)") auto
      have tt: "traverse_tree inp chk i s = split_categorical inp chk i f vs l r s"
        using ns il Split Nil by (simp add: traverse_tree_def)
      let ?R = "ss_bounds_cat s ! j"
      let ?I = "intersect1d ?R vs"
      consider (a) "length ?I = length ?R" | (b) "length ?I \<noteq> length ?R" "?I = []"
        | (c) "length ?I \<noteq> length ?R" "?I \<noteq> []" by blast
      then show ?thesis
      proof cases
        case a
        then have "traverse_tree inp chk i s = Inr (advance i l s)"
          using tt jj by (simp add: split_categorical_def Let_def)
        with ns Split moved show ?thesis by blast
      next
        case b
        then have "traverse_tree inp chk i s = Inr (advance i r s)"
          using tt jj by (simp add: split_categorical_def Let_def)
        with ns Split moved show ?thesis by blast
      next
        case c
        let ?inl = "val_in (challenger inp ! f) ?I"
        let ?m = "mask_and (ss_indices s)
          (if ?inl then (\<lambda>v. val_in v vs) else (\<lambda>v. \<not> val_in v vs)) (column (X inp) f)"
        let ?c = "if ?inl then l else r"
        show ?thesis
        proof (cases "num_min inp < int (count_true ?m)")
          case True
          then have "traverse_tree inp chk i s = Inr (advance i ?c
             (s\<lparr>ss_bounds_cat := (ss_bounds_cat s)[j :=
               (if ?inl then ?I else setdiff1d ?R vs)], ss_indices := ?m\<rparr>))"
            using tt jj c hc by (cases ?inl) (simp_all add: split_categorical_def Let_def)
          with ns Split Nil jj c True cat [of f t vs l r ?c j js ?inl] show ?thesis by auto
        next
          case False
          then have "traverse_tree inp chk i s = Inr (if chk then freeze i s else advance i ?c s)"
            using tt jj c hc by (cases ?inl) (simp_all add: split_categorical_def Let_def)
          with ns Split frozen moved [of f t vs l r ?c] show ?thesis by (cases chk) auto
        qed
      qed
    next
      case (Cons j js)
      with where_eq_distinct [OF dc, of f] have wj: "where_eq f (cont_dims inp) = [j]" by auto
      have tt: "traverse_tree inp chk i s = split_continuous inp chk i f j t l r s"
        using ns il Split wj by (simp add: traverse_tree_def)
      let ?b = "ss_bounds_cont s ! j"
      let ?right = "val_ge (challenger inp ! f) t"
      let ?c = "if ?right then r else l"
      show ?thesis
      proof (cases "fst ?b \<le> t \<and> t \<le> snd ?b")
        case False
        then have "traverse_tree inp chk i s = Inr (advance i ?c s)"
          using tt fl by (auto simp add: split_continuous_def Let_def)
        with ns Split moved [of f t vs l r ?c] show ?thesis by auto
      next
        case inr: True
        let ?m = "mask_and (ss_indices s)
          (if ?right then (\<lambda>v. val_ge v t) else (\<lambda>v. val_le v t)) (column (X inp) f)"
        show ?thesis
        proof (cases "num_min inp < int (count_true ?m)")
          case True
          then have "traverse_tree inp chk i s = Inr (advance i ?c
             (s\<lparr>ss_bounds_cont := (ss_bounds_cont s)[j :=
               store_bound inp (if ?right then (t, snd ?b) else (fst ?b, t))], ss_indices := ?m\<rparr>))"
            using tt inr hc fl by (cases ?right) (simp_all add: split_continuous_def Let_def)
          with ns Split wj inr True cont [of f t vs l r ?c j ?right] show ?thesis by auto
        next
          case False
          then have "traverse_tree inp chk i s = Inr (if chk then freeze i s else advance i ?c s)"
            using tt inr hc fl by (cases ?right) (simp_all add: split_continuous_def Let_def)
          with ns Split frozen moved [of f t vs l r ?c] show ?thesis by (cases chk) auto
        qed
      qed
    qed
  qed
qed

subsection \<open>Storing a bound in an integer array\<close>

lemma truncate_cast_of_int: "truncate_cast (real_of_int k) = real_of_int k"
  by (simp add: truncate_cast_def)

lemma truncate_cast_idem: "truncate_cast (truncate_cast x) = truncate_cast x"
  by (simp add: truncate_cast_def)

lemma store_bound_integral:
  assumes "int_bounds inp"
  shows "truncate_cast (fst (store_bound inp b)) = fst (store_bound inp b)"
    and "truncate_cast (snd (store_bound inp b)) = snd (store_bound inp b)"
  using assms by (simp_all add: store_bound_def truncate_cast_idem)

lemma truncate_cast_lower:
  assumes "truncate_cast lo = lo" and "lo \<le> t"
  shows "lo \<le> truncate_cast t"
proof (cases "0 \<le> t")
  case True
  from assms(1) obtain k where k: "lo = real_of_int k"
    by (auto simp: truncate_cast_def split: if_splits)
  with assms(2) have "k \<le> \<lfloor>t\<rfloor>" by (simp add: le_floor_iff)
  with True k show ?thesis by (simp add: truncate_cast_def)
next
  case False
  have "lo \<le> real_of_int \<lceil>t\<rceil>"
    using assms(2) le_of_int_ceiling [of t] by linarith
  with False show ?thesis by (simp add: truncate_cast_def)
qed

lemma truncate_cast_upper:
  assumes "truncate_cast hi = hi" and "t \<le> hi"
  shows "truncate_cast t \<le> hi"
proof (cases "0 \<le> t")
  case True
  have "real_of_int \<lfloor>t\<rfloor> \<le> hi"
    using assms(2) of_int_floor_le [of t] by linarith
  with True show ?thesis by (simp add: truncate_cast_def)
next
  case False
  from assms(1) obtain k where k: "hi = real_of_int k"
    by (auto simp: truncate_cast_def split: if_splits)
  with assms(2) have "\<lceil>t\<rceil> \<le> k" by (simp add: ceiling_le_iff)
  with False k show ?thesis by (simp add: truncate_cast_def)
qed

text \<open>
  The interval stored for a committed split lies inside the interval it replaces, in a
  float array and in an integer array.
\<close>

lemma store_bound_inside:
  assumes "int_bounds inp \<longrightarrow> truncate_cast (fst b) = fst b \<and> truncate_cast (snd b) = snd b"
    and "fst b \<le> t" and "t \<le> snd b"
  shows "fst b \<le> fst (store_bound inp (if right then (t, snd b) else (fst b, t)))"
    and "snd (store_bound inp (if right then (t, snd b) else (fst b, t))) \<le> snd b"
  using assms truncate_cast_lower [of "fst b" t] truncate_cast_upper [of "snd b" t]
  by (auto simp: store_bound_def)

text \<open>An integer array of bounds holds integers.\<close>

lemma int_bounds_integral:
  assumes "int_bounds inp" and "d < length (bounds inp)"
  shows "truncate_cast (fst (ss_bounds inp ! d)) = fst (ss_bounds inp ! d)"
    and "truncate_cast (snd (ss_bounds inp ! d)) = snd (ss_bounds inp ! d)"
proof -
  obtain lo hi where b: "bounds inp ! d = (lo, hi)" by fastforce
  with assms have "is_int lo \<and> is_int hi"
    unfolding int_bounds_def using nth_mem by fastforce
  then obtain i k where "lo = PyInt i" "hi = PyInt k"
    by (auto simp: is_int_def split: pynum.splits)
  with b assms(2) show "truncate_cast (fst (ss_bounds inp ! d)) = fst (ss_bounds inp ! d)"
    and "truncate_cast (snd (ss_bounds inp ! d)) = snd (ss_bounds inp ! d)"
    by (simp_all add: ss_bounds_def num_value_def truncate_cast_of_int)
qed

subsection \<open>Every pass makes progress, so both loops end\<close>

lemma size_children: "size l < size (Split f t vs l r)" "size r < size (Split f t vs l r)"
  by simp_all

lemma traverse_tree_progress:
  assumes wf: "wf_input inp" and ok: "state_ok inp s" and i: "i < length (trees inp)"
  shows "\<exists>s'. traverse_tree inp chk i s = Inr s' \<and> state_ok inp s'
           \<and> (\<forall>j. tree_work s' j \<le> tree_work s j)
           \<and> (\<not> stop_update s ! i \<longrightarrow> tree_work s' i < tree_work s i)"
proof -
  from ok i have il: "i < length (stop_update s)" "i < length (node_indices s)"
    by (simp_all add: state_ok_def)
  have adv: "state_ok inp (advance i c s') \<and> (\<forall>j. tree_work (advance i c s') j \<le> tree_work s j)
           \<and> tree_work (advance i c s') i < tree_work s i"
    if "\<not> stop_update s ! i" "node_indices s ! i = Split f t vs l r" "c = l \<or> c = r"
       "state_ok inp s'" "node_indices s' = node_indices s" "stop_update s' = stop_update s"
    for f t vs l r c s'
  proof -
    from il ok have "wf_node inp (node_indices s ! i)" by (simp add: state_ok_def)
    with that have wc: "wf_node inp c" by auto
    from that have sz: "size c < size (node_indices s ! i)" by auto
    have "state_ok inp (advance i c s')"
      using that wc by (auto simp: state_ok_def advance_def dest!: set_update_subset_insert [THEN subsetD])
    moreover have "tree_work (advance i c s') j \<le> tree_work s j" for j
      using that sz il by (cases "j = i") (auto simp: tree_work_def advance_def)
    moreover have "tree_work (advance i c s') i < tree_work s i"
      using that sz il by (auto simp: tree_work_def advance_def)
    ultimately show ?thesis by blast
  qed
  from wf ok i show ?thesis
  proof (cases rule: traverse_tree_outcome [where chk = chk])
    case same
    with ok show ?thesis by simp
  next
    case frozen
    have "state_ok inp (freeze i s)" using ok by (simp add: state_ok_def freeze_def)
    moreover have "tree_work (freeze i s) j \<le> tree_work s j" for j
      using il by (cases "j = i") (auto simp: tree_work_def freeze_def)
    moreover have "tree_work (freeze i s) i < tree_work s i"
      using il frozen by (auto simp: tree_work_def freeze_def)
    ultimately show ?thesis using frozen by auto
  next
    case (moved f t vs l r c)
    with adv [of f t vs l r c s] ok show ?thesis by auto
  next
    case (cont f t vs l r c j right)
    let ?s' = "s\<lparr>ss_bounds_cont := (ss_bounds_cont s)[j :=
               store_bound inp (if right then (t, snd (ss_bounds_cont s ! j)) else (fst (ss_bounds_cont s ! j), t))],
            ss_indices := mask_and (ss_indices s)
               (if right then (\<lambda>v. val_ge v t) else (\<lambda>v. val_le v t)) (column (X inp) f)\<rparr>"
    have "truncate_cast (fst b) = fst b \<and> truncate_cast (snd b) = snd b"
      if "int_bounds inp" and "b \<in> set (ss_bounds_cont ?s')" for b
    proof -
      from that(2) have "b = store_bound inp (if right then (t, snd (ss_bounds_cont s ! j))
            else (fst (ss_bounds_cont s ! j), t)) \<or> b \<in> set (ss_bounds_cont s)"
        using set_update_subset_insert by fastforce
      with that(1) ok show ?thesis by (auto simp: state_ok_def store_bound_integral)
    qed
    with ok have "state_ok inp ?s'" by (simp add: state_ok_def mask_and_def column_def)
    with adv [of f t vs l r c ?s'] cont show ?thesis by auto
  next
    case (cat f t vs l r c j js inl)
    let ?s' = "s\<lparr>ss_bounds_cat := (ss_bounds_cat s)[j :=
               (if inl then intersect1d (ss_bounds_cat s ! j) vs
                else setdiff1d (ss_bounds_cat s ! j) vs)],
            ss_indices := mask_and (ss_indices s)
               (if inl then (\<lambda>v. val_in v vs) else (\<lambda>v. \<not> val_in v vs)) (column (X inp) f)\<rparr>"
    have "state_ok inp ?s'" using ok by (simp add: state_ok_def mask_and_def column_def)
    with adv [of f t vs l r c ?s'] cat show ?thesis by auto
  qed
qed

lemma traverse_forest_progress:
  assumes wf: "wf_input inp"
    and step: "\<And>i s s'. state_ok inp s \<Longrightarrow> Q s \<Longrightarrow> i < length (trees inp)
                 \<Longrightarrow> traverse_tree inp chk i s = Inr s' \<Longrightarrow> Q s'"
  shows "state_ok inp s \<Longrightarrow> Q s \<Longrightarrow> \<forall>i \<in> set order. i < length (trees inp) \<Longrightarrow>
         \<exists>s'. traverse_forest inp chk order s = Inr s' \<and> state_ok inp s' \<and> Q s'
           \<and> (\<forall>j. tree_work s' j \<le> tree_work s j)
           \<and> ((\<exists>i \<in> set order. \<not> stop_update s ! i) \<longrightarrow> (\<exists>i \<in> set order. tree_work s' i < tree_work s i))"
proof (induction order arbitrary: s)
  case Nil
  then show ?case by simp
next
  case (Cons i order)
  from Cons.prems have i: "i < length (trees inp)" by simp
  from traverse_tree_progress [OF wf Cons.prems(1) i, of chk]
  obtain s1 where s1: "traverse_tree inp chk i s = Inr s1" "state_ok inp s1"
    "\<forall>j. tree_work s1 j \<le> tree_work s j"
    "\<not> stop_update s ! i \<longrightarrow> tree_work s1 i < tree_work s i" by blast
  from step [OF Cons.prems(1,2) i s1(1)] have q1: "Q s1" .
  from Cons.IH [OF s1(2) q1] Cons.prems(3)
  obtain s' where s': "traverse_forest inp chk order s1 = Inr s'" "state_ok inp s'" "Q s'"
    "\<forall>j. tree_work s' j \<le> tree_work s1 j"
    "(\<exists>i \<in> set order. \<not> stop_update s1 ! i) \<longrightarrow> (\<exists>i \<in> set order. tree_work s' i < tree_work s1 i)"
    by auto
  have le: "tree_work s' j \<le> tree_work s j" for j
    using s'(4) s1(3) le_trans by blast
  have strict: "\<exists>i' \<in> set (i # order). tree_work s' i' < tree_work s i'"
    if ex: "\<exists>i' \<in> set (i # order). \<not> stop_update s ! i'"
  proof (cases "stop_update s ! i")
    case False
    with s1(4) have "tree_work s1 i < tree_work s i" by simp
    with s'(4) have "tree_work s' i < tree_work s i" using le_less_trans by blast
    then show ?thesis by auto
  next
    case True
    then have "traverse_tree inp chk i s = Inr s"
      using Cons.prems(1) i by (simp add: traverse_tree_def state_ok_def)
    with s1(1) have "s1 = s" by simp
    moreover from ex True have "\<exists>i' \<in> set order. \<not> stop_update s ! i'" by auto
    ultimately show ?thesis using s'(5) by auto
  qed
  show ?case using s1(1) s' le strict by auto
qed

lemma unfrozen_tree:
  assumes "count_true bs < length bs"
  shows "\<exists>i < length bs. \<not> bs ! i"
proof (rule ccontr)
  assume "\<not> ?thesis"
  then have "\<forall>b \<in> set bs. b" by (auto simp: in_set_conv_nth)
  then have "filter (\<lambda>b. b) bs = bs" by (simp add: filter_id_conv)
  with assms show False by (simp add: count_true_def)
qed

lemma passes_total:
  assumes wf: "wf_input inp" and dr: "wf_draws inp draws"
    and step: "\<And>i s s'. state_ok inp s \<Longrightarrow> Q s \<Longrightarrow> i < length (trees inp)
                 \<Longrightarrow> traverse_tree inp chk i s = Inr s' \<Longrightarrow> Q s'"
  shows "state_ok inp s \<Longrightarrow> Q s \<Longrightarrow>
         \<exists>k' s'. passes inp chk draws k s = Some (Inr (k', s')) \<and> state_ok inp s' \<and> Q s'
            \<and> \<not> count_true (stop_update s') < length (trees inp)"
proof (induction "work s" arbitrary: s k rule: less_induct)
  case less
  show ?case
  proof (cases "count_true (stop_update s) < length (trees inp)")
    case False
    with less.prems show ?thesis by (subst passes.simps) simp
  next
    case True
    from less.prems(1) have n: "length (stop_update s) = length (trees inp)"
      by (simp add: state_ok_def)
    from dr have ord: "\<forall>i \<in> set (draws k). i < length (trees inp)"
      and all: "set (draws k) = {0 ..< length (trees inp)}" by (auto simp: wf_draws_def)
    have "\<exists>s'. traverse_forest inp chk (draws k) s = Inr s' \<and> state_ok inp s' \<and> Q s'
           \<and> (\<forall>j. tree_work s' j \<le> tree_work s j)
           \<and> ((\<exists>i \<in> set (draws k). \<not> stop_update s ! i)
                \<longrightarrow> (\<exists>i \<in> set (draws k). tree_work s' i < tree_work s i))"
      by (rule traverse_forest_progress [where Q = Q, OF wf step less.prems ord])
    then obtain s1 where s1: "traverse_forest inp chk (draws k) s = Inr s1" "state_ok inp s1" "Q s1"
      "\<forall>j. tree_work s1 j \<le> tree_work s j"
      "(\<exists>i \<in> set (draws k). \<not> stop_update s ! i) \<longrightarrow> (\<exists>i \<in> set (draws k). tree_work s1 i < tree_work s i)"
      by blast
    from unfrozen_tree True n obtain i where "i < length (trees inp)" "\<not> stop_update s ! i"
      by metis
    with all s1(5) obtain i' where i': "i' < length (trees inp)" "tree_work s1 i' < tree_work s i'"
      by auto
    from s1(2) have n1: "length (stop_update s1) = length (trees inp)" by (simp add: state_ok_def)
    have "work s1 < work s"
      unfolding work_def n n1
      by (rule sum_strict_mono_ex1) (use s1(4) i' in auto)
    from less.hyps [OF this s1(2,3), of "Suc k"]
    show ?thesis using True s1(1) by (subst passes.simps) simp
  qed
qed

subsection \<open>Invariants of a visit\<close>

lemma length_mask_and: "length (mask_and m p col) = min (length m) (length col)"
  by (simp add: mask_and_def)

lemma nth_mask_and:
  "r < length m \<Longrightarrow> r < length col \<Longrightarrow> mask_and m p col ! r = (m ! r \<and> p (col ! r))"
  by (simp add: mask_and_def)

lemma length_column: "length (column xs f) = length xs"
  by (simp add: column_def)


lemma count_true_le: "count_true bs \<le> length bs"
  by (simp add: count_true_def)

lemma count_true_replicate: "count_true (replicate n True) = n"
  by (simp add: count_true_def)


text \<open>What one visit can do to the region and the mask.\<close>

lemma traverse_tree_effect:
  assumes wf: "wf_input inp" and ok: "state_ok inp s" and i: "i < length (trees inp)"
    and tt: "traverse_tree inp chk i s = Inr s'"
  obtains
    (unchanged) "ss_bounds_cont s' = ss_bounds_cont s" "ss_bounds_cat s' = ss_bounds_cat s"
      "ss_indices s' = ss_indices s"
  | (cont) f j t right where "j < length (cont_dims inp)" "cont_dims inp ! j = f"
      "f < length (challenger inp)"
      "fst (ss_bounds_cont s ! j) \<le> t" "t \<le> snd (ss_bounds_cont s ! j)"
      "num_min inp < int (count_true (ss_indices s'))"
      "ss_bounds_cont s' = (ss_bounds_cont s)[j :=
         store_bound inp (if right then (t, snd (ss_bounds_cont s ! j)) else (fst (ss_bounds_cont s ! j), t))]"
      "ss_bounds_cat s' = ss_bounds_cat s"
      "ss_indices s' = mask_and (ss_indices s)
         (if right then (\<lambda>v. val_ge v t) else (\<lambda>v. val_le v t)) (column (X inp) f)"
  | (cat) f j vs inl where "j < length (cat_dims inp)" "cat_dims inp ! j = f"
      "f < length (challenger inp)"
      "intersect1d (ss_bounds_cat s ! j) vs \<noteq> []"
      "length (intersect1d (ss_bounds_cat s ! j) vs) \<noteq> length (ss_bounds_cat s ! j)"
      "num_min inp < int (count_true (ss_indices s'))"
      "ss_bounds_cont s' = ss_bounds_cont s"
      "ss_bounds_cat s' = (ss_bounds_cat s)[j :=
         (if inl then intersect1d (ss_bounds_cat s ! j) vs else setdiff1d (ss_bounds_cat s ! j) vs)]"
      "ss_indices s' = mask_and (ss_indices s)
         (if inl then (\<lambda>v. val_in v vs) else (\<lambda>v. \<not> val_in v vs)) (column (X inp) f)"
proof -
  from ok i have il: "i < length (node_indices s)" by (simp add: state_ok_def)
  with ok have wn: "wf_node inp (node_indices s ! i)" by (simp add: state_ok_def)
  from wf ok i show ?thesis
  proof (cases rule: traverse_tree_outcome [where chk = chk])
    case same
    with tt unchanged show ?thesis by simp
  next
    case frozen
    with tt have "s' = freeze i s" by simp
    then show ?thesis using unchanged by (simp add: freeze_def)
  next
    case (moved f t vs l r c)
    with tt have "s' = advance i c s" by simp
    then show ?thesis using unchanged by (simp add: advance_def)
  next
    case c: (cont f t vs l r c j right)
    from c(4) have "j \<in> set (where_eq f (cont_dims inp))" by simp
    then have j: "j < length (cont_dims inp)" "cont_dims inp ! j = f" by (simp_all add: set_where_eq)
    from wn c(2) have fl: "f < length (challenger inp)" by simp
    from c tt have s': "s' = advance i c
         (s\<lparr>ss_bounds_cont := (ss_bounds_cont s)[j :=
               store_bound inp (if right then (t, snd (ss_bounds_cont s ! j)) else (fst (ss_bounds_cont s ! j), t))],
            ss_indices := mask_and (ss_indices s)
               (if right then (\<lambda>v. val_ge v t) else (\<lambda>v. val_le v t)) (column (X inp) f)\<rparr>)"
      by simp
    show ?thesis
      by (rule cont [of j f t right]) (use j fl c(5,6,7) in \<open>simp_all add: s' advance_def\<close>)
  next
    case c: (cat f t vs l r c j js inl)
    from c(5) have j: "j < length (cat_dims inp)" "cat_dims inp ! j = f"
      using where_eq_hd by blast+
    from wn c(2) have fl: "f < length (challenger inp)" by simp
    from c tt have s': "s' = advance i c
         (s\<lparr>ss_bounds_cat := (ss_bounds_cat s)[j :=
               (if inl then intersect1d (ss_bounds_cat s ! j) vs
                else setdiff1d (ss_bounds_cat s ! j) vs)],
            ss_indices := mask_and (ss_indices s)
               (if inl then (\<lambda>v. val_in v vs) else (\<lambda>v. \<not> val_in v vs)) (column (X inp) f)\<rparr>)"
      by simp
    show ?thesis
      by (rule cat [of j f vs inl]) (use j fl c(6,7,8) in \<open>simp_all add: s' advance_def\<close>)
  qed
qed

text \<open>Invariant: at least \<open>num_min\<close> points stay selected.\<close>

lemma count_step:
  assumes "wf_input inp" "state_ok inp s" "i < length (trees inp)"
    "traverse_tree inp chk i s = Inr s'" "num_min inp \<le> int (count_true (ss_indices s))"
  shows "num_min inp \<le> int (count_true (ss_indices s'))"
  using assms(1-4)
  by (cases rule: traverse_tree_effect) (use assms(5) in auto)

text \<open>Invariant: with \<open>num_min\<close> at least the number of rows, nothing is ever committed.\<close>

lemma keep_step:
  assumes "wf_input inp" "state_ok inp s" "i < length (trees inp)"
    "traverse_tree inp chk i s = Inr s'" "int (length (X inp)) \<le> num_min inp"
    "ss_bounds_cont s = bc \<and> ss_bounds_cat s = bcat \<and> ss_indices s = m"
  shows "ss_bounds_cont s' = bc \<and> ss_bounds_cat s' = bcat \<and> ss_indices s' = m"
  using assms(1-4)
proof (cases rule: traverse_tree_effect)
  case unchanged
  with assms(6) show ?thesis by simp
next
  case (cont f j t right)
  have "count_true (ss_indices s') \<le> length (ss_indices s')" by (rule count_true_le)
  also have "\<dots> \<le> length (X inp)" using cont(9) by (simp add: length_mask_and length_column)
  finally show ?thesis using cont(6) assms(5) by simp
next
  case (cat f j vs inl)
  have "count_true (ss_indices s') \<le> length (ss_indices s')" by (rule count_true_le)
  also have "\<dots> \<le> length (X inp)" using cat(9) by (simp add: length_mask_and length_column)
  finally show ?thesis using cat(6) assms(5) by simp
qed

text \<open>Invariant: the state only shrinks.\<close>

lemma list_all2_update_left:
  assumes "list_all2 P xs ys" and "j < length xs \<Longrightarrow> P x (ys ! j)"
  shows "list_all2 P (xs[j := x]) ys"
proof (cases "j < length xs")
  case True
  with assms(1) have "ys[j := ys ! j] = ys" by simp
  moreover from assms True have "list_all2 P (xs[j := x]) (ys[j := ys ! j])"
    by (intro list_all2_update_cong) simp_all
  ultimately show ?thesis by simp
next
  case False
  then have "xs[j := x] = xs" by (intro list_update_beyond) (simp add: not_less)
  with assms(1) show ?thesis by simp
qed

lemma shrunk_refl: "shrunk a a"
  by (simp add: shrunk_def list_all2_refl)

lemma shrunk_step:
  assumes "wf_input inp" "state_ok inp s" "i < length (trees inp)"
    "traverse_tree inp chk i s = Inr s'" "shrunk a (region_of s)"
  shows "shrunk a (region_of s')"
proof -
  from assms(5) have c: "list_all2 (\<lambda>b b0. fst b0 \<le> fst b \<and> snd b \<le> snd b0) (ss_bounds_cont s) (fst a)"
    and a: "list_all2 (\<lambda>vs vs0. set vs \<subseteq> set vs0) (ss_bounds_cat s) (fst (snd a))"
    and m: "list_all2 (\<lambda>b b0. b \<longrightarrow> b0) (ss_indices s) (snd (snd a))"
    by (simp_all add: shrunk_def region_of_def)
  from assms(2) have lm: "length (ss_indices s) = length (X inp)" by (simp add: state_ok_def)
  have mask: "list_all2 (\<lambda>b b0. b \<longrightarrow> b0) (mask_and (ss_indices s) p (column (X inp) f)) (snd (snd a))"
    for p f
    using m lm unfolding list_all2_conv_all_nth
    by (auto simp: length_mask_and length_column nth_mask_and)
  from assms(1-4) show ?thesis
  proof (cases rule: traverse_tree_effect)
    case unchanged
    with assms(5) show ?thesis by (simp add: shrunk_def region_of_def)
  next
    case (cont f j t right)
    have "list_all2 (\<lambda>b b0. fst b0 \<le> fst b \<and> snd b \<le> snd b0) (ss_bounds_cont s') (fst a)"
      unfolding cont(7)
    proof (rule list_all2_update_left [OF c])
      assume jl: "j < length (ss_bounds_cont s)"
      with c have old: "fst (fst a ! j) \<le> fst (ss_bounds_cont s ! j)"
        "snd (ss_bounds_cont s ! j) \<le> snd (fst a ! j)"
        by (simp_all add: list_all2_conv_all_nth)
      from assms(2) jl have int: "int_bounds inp \<longrightarrow>
          truncate_cast (fst (ss_bounds_cont s ! j)) = fst (ss_bounds_cont s ! j)
          \<and> truncate_cast (snd (ss_bounds_cont s ! j)) = snd (ss_bounds_cont s ! j)"
        by (simp add: state_ok_def)
      from store_bound_inside [OF int cont(4,5), of right] old
      show "fst (fst a ! j)
          \<le> fst (store_bound inp (if right then (t, snd (ss_bounds_cont s ! j))
                    else (fst (ss_bounds_cont s ! j), t)))
        \<and> snd (store_bound inp (if right then (t, snd (ss_bounds_cont s ! j))
                    else (fst (ss_bounds_cont s ! j), t)))
          \<le> snd (fst a ! j)"
        by linarith
    qed
    with a mask cont(8,9) show ?thesis by (simp add: shrunk_def region_of_def)
  next
    case (cat f j vs inl)
    have "list_all2 (\<lambda>vs vs0. set vs \<subseteq> set vs0) (ss_bounds_cat s') (fst (snd a))"
      unfolding cat(8)
    proof (rule list_all2_update_left [OF a])
      assume "j < length (ss_bounds_cat s)"
      with a have "set (ss_bounds_cat s ! j) \<subseteq> set (fst (snd a) ! j)"
        by (simp add: list_all2_conv_all_nth)
      then show "set (if inl then intersect1d (ss_bounds_cat s ! j) vs
                      else setdiff1d (ss_bounds_cat s ! j) vs) \<subseteq> set (fst (snd a) ! j)"
        by (auto simp: intersect1d_def setdiff1d_def)
    qed
    with c mask cat(7,9) show ?thesis by (simp add: shrunk_def region_of_def)
  qed
qed







text \<open>
  Invariant: every retained set is strictly ascending, so that keeping the values of a
  retained set in their order is what \<open>np.intersect1d\<close> and \<open>np.setdiff1d\<close> return.
\<close>

lemma arange_ascending: "sorted_wrt (<) (arange n)"
  by (simp add: arange_def sorted_wrt_map)

lemma ascending_step:
  assumes "wf_input inp" "state_ok inp s" "i < length (trees inp)"
    "traverse_tree inp chk i s = Inr s'"
    "\<forall>vs \<in> set (ss_bounds_cat s). sorted_wrt (<) vs"
  shows "\<forall>vs \<in> set (ss_bounds_cat s'). sorted_wrt (<) vs"
  using assms(1-4)
proof (cases rule: traverse_tree_effect)
  case unchanged
  with assms(5) show ?thesis by simp
next
  case (cont f j t right)
  with assms(5) show ?thesis by simp
next
  case (cat f j vs inl)
  from assms(2) cat(1) have jl: "j < length (ss_bounds_cat s)" by (simp add: state_ok_def)
  with assms(5) have old: "sorted_wrt (<) (ss_bounds_cat s ! j)" by simp
  have new: "sorted_wrt (<) (if inl then intersect1d (ss_bounds_cat s ! j) vs
              else setdiff1d (ss_bounds_cat s ! j) vs)"
    using old by (simp add: intersect1d_def setdiff1d_def sorted_wrt_filter)
  show ?thesis
    unfolding cat(8) using assms(5) new set_update_subset_insert by fastforce
qed

subsection \<open>The whole extraction\<close>

lemma initial_state_ok:
  assumes wf: "wf_input inp"
  shows "\<exists>s0. initial_state inp = Inr s0 \<and> state_ok inp s0
           \<and> region_of s0 = (full_bounds_cont inp, full_bounds_cat inp, replicate (length (X inp)) True)"
  using wf
  by (auto simp: initial_state_def wf_input_def state_ok_def region_of_def full_bounds_cont_def
        full_bounds_cat_def int_bounds_integral)

lemma state_ok_reset:
  "state_ok inp s \<Longrightarrow> state_ok inp (s\<lparr>stop_update := replicate (length (trees inp)) False\<rparr>)"
  by (simp add: state_ok_def)

lemma region_of_reset: "region_of (s\<lparr>stop_update := bs\<rparr>) = region_of s"
  by (simp add: region_of_def)

text \<open>
  Both loops return, without an error, and any property of the region and the mask that
  every visit preserves holds of what they return.
\<close>

lemma first_pass_total:
  assumes wf: "wf_input inp" and dr: "wf_draws inp draws"
    and step: "\<And>i s s'. state_ok inp s \<Longrightarrow> P (region_of s) \<Longrightarrow> i < length (trees inp)
                 \<Longrightarrow> traverse_tree inp True i s = Inr s' \<Longrightarrow> P (region_of s')"
    and init: "P (full_bounds_cont inp, full_bounds_cat inp, replicate (length (X inp)) True)"
  shows "\<exists>k s1. first_pass draws inp = Some (Inr (k, s1)) \<and> state_ok inp s1 \<and> P (region_of s1)"
proof -
  from initial_state_ok [OF wf] obtain s0 where s0: "initial_state inp = Inr s0" "state_ok inp s0"
    "region_of s0 = (full_bounds_cont inp, full_bounds_cat inp, replicate (length (X inp)) True)"
    by blast
  from init s0(3) have p0: "P (region_of s0)" by simp
  have "\<exists>k' s'. passes inp True draws 1 s0 = Some (Inr (k', s')) \<and> state_ok inp s' \<and> P (region_of s')
            \<and> \<not> count_true (stop_update s') < length (trees inp)"
    by (rule passes_total [where Q = "\<lambda>s. P (region_of s)", OF wf dr _ s0(2) p0]) (rule step)
  then show ?thesis using s0(1) by (auto simp: first_pass_def)
qed

lemma second_pass_total:
  assumes wf: "wf_input inp" and dr: "wf_draws inp draws"
    and step: "\<And>i s s'. state_ok inp s \<Longrightarrow> P (region_of s) \<Longrightarrow> i < length (trees inp)
                 \<Longrightarrow> traverse_tree inp False i s = Inr s' \<Longrightarrow> P (region_of s')"
    and ok: "state_ok inp s1" and p1: "P (region_of s1)"
  shows "\<exists>k' s2. second_pass draws inp k s1 = Some (Inr (k', s2)) \<and> state_ok inp s2 \<and> P (region_of s2)"
proof (cases "int (count_true (ss_indices s1)) > num_max inp")
  case False
  with ok p1 show ?thesis by (simp add: second_pass_def)
next
  case True
  let ?s = "s1\<lparr>stop_update := replicate (length (trees inp)) False\<rparr>"
  have ok': "state_ok inp ?s" using ok by (rule state_ok_reset)
  have p': "P (region_of ?s)" using p1 by (simp add: region_of_reset)
  have "\<exists>k' s'. passes inp False draws k ?s = Some (Inr (k', s')) \<and> state_ok inp s' \<and> P (region_of s')
            \<and> \<not> count_true (stop_update s') < length (trees inp)"
    by (rule passes_total [where Q = "\<lambda>s. P (region_of s)", OF wf dr _ ok' p']) (rule step)
  with True show ?thesis by (auto simp: second_pass_def)
qed

lemma extraction_total:
  assumes wf: "wf_input inp" and dr: "wf_draws inp draws"
    and step: "\<And>chk i s s'. state_ok inp s \<Longrightarrow> P (region_of s) \<Longrightarrow> i < length (trees inp)
                 \<Longrightarrow> traverse_tree inp chk i s = Inr s' \<Longrightarrow> P (region_of s')"
    and init: "P (full_bounds_cont inp, full_bounds_cat inp, replicate (length (X inp)) True)"
  shows "\<exists>r. subspace_extraction draws inp = Some (Inr r) \<and> P r"
proof -
  have "\<exists>k s1. first_pass draws inp = Some (Inr (k, s1)) \<and> state_ok inp s1 \<and> P (region_of s1)"
    by (rule first_pass_total [where P = P, OF wf dr _ init]) (rule step)
  then obtain k s1 where s1: "first_pass draws inp = Some (Inr (k, s1))" "state_ok inp s1"
    "P (region_of s1)" by blast
  have "\<exists>k' s2. second_pass draws inp k s1 = Some (Inr (k', s2)) \<and> state_ok inp s2 \<and> P (region_of s2)"
    by (rule second_pass_total [where P = P, OF wf dr _ s1(2,3)]) (rule step)
  then obtain k' s2 where s2: "second_pass draws inp k s1 = Some (Inr (k', s2))" "P (region_of s2)"
    by blast
  show ?thesis using s1(1) s2 by (auto simp: subspace_extraction_def region_of_def)
qed

text \<open>What the extraction returns after a first loop that ended in state \<open>s1\<close>.\<close>

lemma extraction_after_first:
  assumes wf: "wf_input inp" and dr: "wf_draws inp draws"
    and step: "\<And>i s s'. state_ok inp s \<Longrightarrow> P (region_of s) \<Longrightarrow> i < length (trees inp)
                 \<Longrightarrow> traverse_tree inp False i s = Inr s' \<Longrightarrow> P (region_of s')"
    and fp: "first_pass draws inp = Some (Inr (k, s1))" and p1: "P (region_of s1)"
  shows "\<exists>r. subspace_extraction draws inp = Some (Inr r) \<and> P r"
proof -
  have "\<exists>k s. first_pass draws inp = Some (Inr (k, s)) \<and> state_ok inp s \<and> True"
    by (rule first_pass_total [where P = "\<lambda>_. True", OF wf dr]) simp_all
  with fp have ok: "state_ok inp s1" by auto
  have "\<exists>k' s2. second_pass draws inp k s1 = Some (Inr (k', s2)) \<and> state_ok inp s2 \<and> P (region_of s2)"
    by (rule second_pass_total [where P = P, OF wf dr _ ok p1]) (rule step)
  then obtain k' s2 where s2: "second_pass draws inp k s1 = Some (Inr (k', s2))" "P (region_of s2)"
    by blast
  show ?thesis using fp s2 by (auto simp: subspace_extraction_def region_of_def)
qed


lemma wf_draws_fixed:
  "distinct order \<Longrightarrow> set order = {0 ..< length (trees inp)} \<Longrightarrow> wf_draws inp (fixed_order order)"
  by (simp add: wf_draws_def fixed_order_def)



text \<open>The retained sets returned are strictly ascending, as the arrays of numpy are.\<close>

lemma retained_sets_ascending:
  assumes "wf_input inp" and "wf_draws inp draws"
  shows "\<exists>r. subspace_extraction draws inp = Some (Inr r)
           \<and> (\<forall>vs \<in> set (fst (snd r)). sorted_wrt (<) vs)"
proof (rule extraction_total [where P = "\<lambda>r. \<forall>vs \<in> set (fst (snd r)). sorted_wrt (<) vs", OF assms])
  fix chk i s s'
  assume "state_ok inp s" "\<forall>vs \<in> set (fst (snd (region_of s))). sorted_wrt (<) vs"
    "i < length (trees inp)" "traverse_tree inp chk i s = Inr s'"
  then show "\<forall>vs \<in> set (fst (snd (region_of s'))). sorted_wrt (<) vs"
    using ascending_step [OF assms(1), of s i chk s'] by (simp add: region_of_def)
next
  show "\<forall>vs \<in> set (fst (snd (full_bounds_cont inp, full_bounds_cat inp,
            replicate (length (X inp)) True))). sorted_wrt (<) vs"
    by (auto simp: full_bounds_cat_def arange_ascending)
qed

text \<open>
  A visit without the minimum check of a tree that is not frozen and stands at a split: it
  never freezes the tree, moves the cursor to a child, and commits the shrink to the
  challenger's side exactly when that side keeps more than \<open>num_min\<close> selected points.
\<close>

lemma no_min_check_visit:
  assumes wf: "wf_input inp" and ok: "state_ok inp s" and i: "i < length (trees inp)"
    and ns: "\<not> stop_update s ! i" and node: "node_indices s ! i = Split f t vs l r"
  shows "\<exists>s'. traverse_tree inp False i s = Inr s' \<and> stop_update s' = stop_update s
      \<and> (node_indices s' = (node_indices s)[i := l] \<or> node_indices s' = (node_indices s)[i := r])
      \<and> (\<forall>j. shrink_due_cont inp s f t j
           \<longrightarrow> ss_bounds_cont s' = (ss_bounds_cont s)
                   [j := store_bound inp (challenger_interval inp f t (ss_bounds_cont s ! j))]
               \<and> ss_bounds_cat s' = ss_bounds_cat s
               \<and> ss_indices s' = mask_and (ss_indices s)
                   (challenger_side_cont inp f t) (column (X inp) f))
      \<and> (\<forall>j. shrink_due_cat inp s f vs j
           \<longrightarrow> ss_bounds_cat s' = (ss_bounds_cat s)
                   [j := challenger_set inp f (ss_bounds_cat s ! j) vs]
               \<and> ss_bounds_cont s' = ss_bounds_cont s
               \<and> ss_indices s' = mask_and (ss_indices s)
                   (challenger_side_cat inp f (ss_bounds_cat s ! j) vs) (column (X inp) f))
      \<and> ((\<forall>j. \<not> shrink_due_cont inp s f t j \<and> \<not> shrink_due_cat inp s f vs j)
           \<longrightarrow> region_of s' = region_of s)"
proof -
  from ok i have il: "i < length (stop_update s)" "i < length (node_indices s)"
    by (simp_all add: state_ok_def)
  from il ok have "wf_node inp (node_indices s ! i)" by (simp add: state_ok_def)
  with node have fl: "f < length (challenger inp)"
    and fd: "f \<in> set (cont_dims inp) \<or> f \<in> set (cat_dims inp)" by simp_all
  from wf fl have hc: "has_column inp f" by (simp add: has_column_def wf_input_def)
  from wf have dc: "distinct (cont_dims inp)" by (simp add: wf_input_def)
  show ?thesis
  proof (cases "where_eq f (cont_dims inp)")
    case Nil
    with fd have "f \<in> set (cat_dims inp)" by (simp add: where_eq_Nil)
    then obtain j js where jj: "where_eq f (cat_dims inp) = j # js"
      using where_eq_Nil [of f "cat_dims inp"] by (cases "where_eq f (cat_dims inp)") auto
    have tt: "traverse_tree inp False i s = split_categorical inp False i f vs l r s"
      using ns il node Nil by (simp add: traverse_tree_def)
    let ?R = "ss_bounds_cat s ! j"
    let ?I = "intersect1d ?R vs"
    let ?m = "mask_and (ss_indices s) (challenger_side_cat inp f ?R vs) (column (X inp) f)"
    let ?c = "if val_in (challenger inp ! f) ?I then l else r"
    consider (a) "length ?I = length ?R" | (b) "length ?I \<noteq> length ?R" "?I = []"
      | (c) "length ?I \<noteq> length ?R" "?I \<noteq> []" "num_min inp < int (count_true ?m)"
      | (d) "length ?I \<noteq> length ?R" "?I \<noteq> []" "\<not> num_min inp < int (count_true ?m)"
      by blast
    then show ?thesis
    proof cases
      case a
      then have "traverse_tree inp False i s = Inr (advance i l s)"
        using tt jj by (simp add: split_categorical_def Let_def)
      with a Nil jj show ?thesis
        by (simp add: advance_def region_of_def shrink_due_cont_def shrink_due_cat_def)
    next
      case b
      then have "traverse_tree inp False i s = Inr (advance i r s)"
        using tt jj by (simp add: split_categorical_def Let_def)
      with b Nil jj show ?thesis
        by (simp add: advance_def region_of_def shrink_due_cont_def shrink_due_cat_def)
    next
      case c
      then have "traverse_tree inp False i s = Inr (advance i ?c
           (s\<lparr>ss_bounds_cat := (ss_bounds_cat s)[j := challenger_set inp f ?R vs],
              ss_indices := ?m\<rparr>))"
        using tt jj hc
        by (cases "val_in (challenger inp ! f) ?I")
          (simp_all add: split_categorical_def Let_def challenger_side_cat_def challenger_set_def)
      with c Nil jj show ?thesis
        by (simp add: advance_def region_of_def shrink_due_cont_def shrink_due_cat_def)
    next
      case d
      then have "traverse_tree inp False i s = Inr (advance i ?c s)"
        using tt jj hc
        by (cases "val_in (challenger inp ! f) ?I")
          (simp_all add: split_categorical_def Let_def challenger_side_cat_def)
      with d Nil jj show ?thesis
        by (simp add: advance_def region_of_def shrink_due_cont_def shrink_due_cat_def)
    qed
  next
    case (Cons j js)
    with where_eq_distinct [OF dc, of f] have wj: "where_eq f (cont_dims inp) = [j]" by auto
    have tt: "traverse_tree inp False i s = split_continuous inp False i f j t l r s"
      using ns il node wj by (simp add: traverse_tree_def)
    let ?b = "ss_bounds_cont s ! j"
    let ?m = "mask_and (ss_indices s) (challenger_side_cont inp f t) (column (X inp) f)"
    let ?c = "if val_ge (challenger inp ! f) t then r else l"
    consider (a) "\<not> (fst ?b \<le> t \<and> t \<le> snd ?b)"
      | (c) "fst ?b \<le> t" "t \<le> snd ?b" "num_min inp < int (count_true ?m)"
      | (d) "fst ?b \<le> t" "t \<le> snd ?b" "\<not> num_min inp < int (count_true ?m)"
      by blast
    then show ?thesis
    proof cases
      case a
      then have "traverse_tree inp False i s = Inr (advance i ?c s)"
        using tt fl by (auto simp add: split_continuous_def Let_def)
      with a wj show ?thesis
        by (auto simp add: advance_def region_of_def shrink_due_cont_def shrink_due_cat_def)
    next
      case c
      then have "traverse_tree inp False i s = Inr (advance i ?c
           (s\<lparr>ss_bounds_cont := (ss_bounds_cont s)[j := store_bound inp (challenger_interval inp f t ?b)],
              ss_indices := ?m\<rparr>))"
        using tt hc fl
        by (cases "val_ge (challenger inp ! f) t")
          (simp_all add: split_continuous_def Let_def challenger_side_cont_def challenger_interval_def)
      with c wj show ?thesis
        by (simp add: advance_def region_of_def shrink_due_cont_def shrink_due_cat_def)
    next
      case d
      then have "traverse_tree inp False i s = Inr (advance i ?c s)"
        using tt hc fl
        by (cases "val_ge (challenger inp ! f) t")
          (simp_all add: split_continuous_def Let_def challenger_side_cont_def)
      with d wj show ?thesis
        by (simp add: advance_def region_of_def shrink_due_cont_def shrink_due_cat_def)
    qed
  qed
qed

section \<open>Properties of the chooser\<close>

lemma check_improvement_no_gain:
  "\<not> v - optimal_value c < 0 \<Longrightarrow>
   check_improvement c d v = Inr (c\<lparr>failcount_TurBO := failcount_TurBO c + 1\<rparr>)"
  by (simp add: check_improvement_def)

lemma check_improvement_gain:
  assumes "v - optimal_value c < 0" and "check_improvement c d v = Inr c2"
  shows "failcount_TurBO c2 \<le> failcount_TurBO c"
  using assms
  by (auto simp: check_improvement_def Let_def split: if_splits option.splits)

lemma continue_TuRBO_fields:
  "returned (continue_TuRBO env d cs c) = TuRBO_challengers"
  "failcount_TurBO (chooser_after (continue_TuRBO env d cs c)) = failcount_TurBO c"
  "failcount_BOinG (chooser_after (continue_TuRBO env d cs c)) = failcount_BOinG c"
  "run_TuRBO (chooser_after (continue_TuRBO env d cs c)) = run_TuRBO c"
  "calls (continue_TuRBO env d cs c) = cs @ [Turbo_add_new_observations]"
  by (simp_all add: continue_TuRBO_def)

lemma collect_from_budgets_none:
  "\<forall>b \<in> set bs. length (data_X (transform_with_raw env (runhistory c) b)) < min_samples_model c
   \<Longrightarrow> collect_from_budgets env c bs = (c, empty_data)"
  by (induction bs) (simp_all add: Let_def)

text \<open>
  A trial that starts outside trust-region mode and ends in it has found data: the mode is
  never entered from the random-search return.
\<close>

lemma TuRBO_mode_entered_with_data:
  assumes "choose_next env c = Inr tr" and "\<not> run_TuRBO c" and "run_TuRBO (chooser_after tr)"
  shows "data_X (snd (collect_all_data_to_train_model env c)) \<noteq> []"
proof
  assume e: "data_X (snd (collect_all_data_to_train_model env c)) = []"
  obtain c0 d where cd: "collect_all_data_to_train_model env c = (c0, d)" by fastforce
  have r: "run_TuRBO c0 = run_TuRBO c"
  proof -
    have "run_TuRBO (fst (collect_from_budgets env c bs)) = run_TuRBO c" for bs
      by (induction bs) (simp_all add: Let_def)
    from this [of "rev (sort (remdups (map budget (runhistory c))))"] cd
    show ?thesis by (simp add: collect_all_data_to_train_model_def)
  qed
  from e cd have "data_X d = []" by simp
  with assms(1) cd r assms(2) have "chooser_after tr = c0"
    by (auto simp: choose_next_def)
  with r assms(2,3) show False by simp
qed

section \<open>Properties of the acquisition function call\<close>

lemma set_nan_rows: "set (nan_rows acq) = {i. i < length acq \<and> NaN \<in> set (acq ! i)}"
  by (auto simp: nan_rows_def isnan_def)

lemma assign_rows_length: "length (assign_rows idx v acq) = length acq"
  unfolding assign_rows_def by (induction idx arbitrary: acq) simp_all

lemma assign_rows_nth:
  assumes "\<forall>i \<in> set idx. i < length acq" and "k < length acq"
  shows "assign_rows idx v acq ! k = (if k \<in> set idx then map (\<lambda>w. v) (acq ! k) else acq ! k)"
  using assms unfolding assign_rows_def
proof (induction idx arbitrary: acq)
  case Nil
  then show ?case by simp
next
  case (Cons i idx)
  let ?a = "acq[i := map (\<lambda>w. v) (acq ! i)]"
  from Cons.prems have "\<forall>j \<in> set idx. j < length ?a" "k < length ?a" by simp_all
  from Cons.IH [OF this]
  have "fold (\<lambda>i a. a[i := map (\<lambda>w. v) (a ! i)]) idx ?a ! k
        = (if k \<in> set idx then map (\<lambda>w. v) (?a ! k) else ?a ! k)" .
  then show ?case using Cons.prems by (cases "k = i") auto
qed

lemma acquisition_call_by_rows:
  "acquisition_call compute configurations
   = (compute configurations)\<lparr>acq_rows :=
       map (\<lambda>row. if NaN \<in> set row
                  then map (\<lambda>w. worst_score (acq_dtype (compute configurations))) row
                  else row)
         (acq_rows (compute configurations))\<rparr>"
proof -
  let ?acq = "acq_rows (compute configurations)"
  let ?v = "worst_score (acq_dtype (compute configurations))"
  let ?f = "\<lambda>row. if NaN \<in> set row then map (\<lambda>w. ?v) row else row"
  show ?thesis
  proof (cases "\<exists>row \<in> set ?acq. \<exists>v \<in> set row. isnan v")
    case False
    then have "\<forall>row \<in> set ?acq. ?f row = row" by (auto simp: isnan_def)
    then have "map ?f ?acq = ?acq" by (simp add: map_idI)
    with False show ?thesis by (simp add: acquisition_call_def Let_def)
  next
    case True
    have idx: "\<forall>i \<in> set (nan_rows ?acq). i < length ?acq" by (simp add: set_nan_rows)
    have "assign_rows (nan_rows ?acq) ?v ?acq = map ?f ?acq"
    proof (rule nth_equalityI)
      show "length (assign_rows (nan_rows ?acq) ?v ?acq) = length (map ?f ?acq)"
        by (simp add: assign_rows_length)
    next
      fix k assume "k < length (assign_rows (nan_rows ?acq) ?v ?acq)"
      then have k: "k < length ?acq" by (simp add: assign_rows_length)
      show "assign_rows (nan_rows ?acq) ?v ?acq ! k = map ?f ?acq ! k"
        using k by (simp add: assign_rows_nth [OF idx k] set_nan_rows)
    qed
    with True show ?thesis by (simp add: acquisition_call_def Let_def)
  qed
qed

section \<open>The claims about subspace\_extraction\<close>




text \<open>
  Claim C2. For every well-formed call of \<open>subspace_extraction\<close> with \<open>num_min\<close> at most
  the number of rows of \<open>X\<close>, the call returns, and the number of true entries of the
  returned mask is at least \<open>num_min\<close>. This holds whether or not the second loop runs,
  so in particular when the count after the first loop does not exceed \<open>num_max\<close>.
\<close>

theorem extraction_keeps_num_min:
  assumes "wf_input inp" and "wf_draws inp draws" and "num_min inp \<le> int (length (X inp))"
  shows "\<exists>bc bcat m. subspace_extraction draws inp = Some (Inr (bc, bcat, m))
           \<and> num_min inp \<le> int (count_true m)"
proof -
  let ?P = "\<lambda>r :: region. num_min inp \<le> int (count_true (snd (snd r)))"
  have "\<exists>r. subspace_extraction draws inp = Some (Inr r) \<and> ?P r"
  proof (rule extraction_total [where P = ?P, OF assms(1,2)])
    fix chk i s s'
    assume "state_ok inp s" "?P (region_of s)" "i < length (trees inp)"
      "traverse_tree inp chk i s = Inr s'"
    then show "?P (region_of s')"
      using count_step [OF assms(1), of s i chk s'] by (simp add: region_of_def)
  next
    show "?P (full_bounds_cont inp, full_bounds_cat inp, replicate (length (X inp)) True)"
      using assms(3) by (simp add: count_true_replicate)
  qed
  then show ?thesis by auto
qed

text \<open>The theorem at a call with two trees, visited in the order 1, 0.\<close>

theorem extraction_keeps_num_min_witness:
  "wf_input call_two_trees \<and> wf_draws call_two_trees (fixed_order [1, 0])
   \<and> num_min call_two_trees \<le> int (length (X call_two_trees))
   \<and> (\<exists>bc bcat m. subspace_extraction (fixed_order [1, 0]) call_two_trees = Some (Inr (bc, bcat, m))
           \<and> num_min call_two_trees \<le> int (count_true m))"
proof -
  have wf: "wf_input call_two_trees" by (simp add: wf_input_def call_two_trees_def)
  have dr: "wf_draws call_two_trees (fixed_order [1, 0])"
    by (rule wf_draws_fixed) (auto simp: call_two_trees_def)
  have n: "num_min call_two_trees \<le> int (length (X call_two_trees))"
    by (simp add: call_two_trees_def)
  from extraction_keeps_num_min [OF wf dr n] wf dr n show ?thesis by blast
qed



text \<open>
  With more rows than \<open>num_max\<close> the bound of the docstring (``no more than num\_max
  points'') is not reached by every forest: the second loop can only follow the trees
  down. Here the only tree has one split, \<open>num_max = 3\<close>, and four points are returned.
\<close>

lemma more_than_num_max_with_many_rows:
  "second_pass_runs (fixed_order [0]) call_shallow
   \<and> subspace_extraction (fixed_order [0]) call_shallow
       = Some (Inr ([(1/2, 1)], [[]], [True, True, True, True, False]))
   \<and> num_max call_shallow < int (count_true [True, True, True, True, False])"
proof -
  have r: "second_pass_runs (fixed_order [0]) call_shallow" by code_simp
  have ev: "subspace_extraction (fixed_order [0]) call_shallow
       = Some (Inr ([(1/2, 1)], [[]], [True, True, True, True, False]))" by code_simp
  have c: "num_max call_shallow < int (count_true [True, True, True, True, False])"
    by (simp add: call_shallow_def count_true_def)
  from r ev c show ?thesis by blast
qed

text \<open>
  Claim C4, as amended. The second loop of \<open>subspace_extraction\<close>, run with the
  \<open>num_min\<close> check disabled, does modify the stored region. A visit of that loop to a
  tree that is not frozen and stands at a split never freezes the tree and moves its
  cursor to a child. When a shrink is due (the split value lies inside the present
  interval of a continuous dimension, respectively the split set holds some but not all of
  the present retained values of a categorical dimension, and the challenger's side keeps
  more than \<open>num_min\<close> selected points) the visit commits it: the interval, as stored in
  the array of bounds, or the retained set becomes that of the challenger's side, and the
  mask is restricted to that side. When no shrink is due the visit leaves bounds, retained
  sets and mask as they are. For every well-formed call the first loop ends in some
  state, the call returns, and what it returns has only shrunk from that state: every
  returned interval is inside the interval the first loop ended with, every returned
  retained set is a subset of the one the first loop ended with, and the returned mask is
  true only where the mask of the first loop was.
\<close>

theorem second_pass_only_shrinks:
  assumes "wf_input inp" and "wf_draws inp draws"
  shows "(\<exists>k s1 r. first_pass draws inp = Some (Inr (k, s1))
           \<and> subspace_extraction draws inp = Some (Inr r) \<and> shrunk (region_of s1) r)
   \<and> (\<forall>s i f t vs l r.
         state_ok inp s \<and> i < length (trees inp) \<and> \<not> stop_update s ! i
         \<and> node_indices s ! i = Split f t vs l r \<longrightarrow>
         (\<exists>s'. traverse_tree inp False i s = Inr s' \<and> stop_update s' = stop_update s
            \<and> (node_indices s' = (node_indices s)[i := l] \<or> node_indices s' = (node_indices s)[i := r])
            \<and> (\<forall>j. shrink_due_cont inp s f t j
                 \<longrightarrow> ss_bounds_cont s' = (ss_bounds_cont s)
                         [j := store_bound inp (challenger_interval inp f t (ss_bounds_cont s ! j))]
                     \<and> ss_bounds_cat s' = ss_bounds_cat s
                     \<and> ss_indices s' = mask_and (ss_indices s)
                         (challenger_side_cont inp f t) (column (X inp) f))
            \<and> (\<forall>j. shrink_due_cat inp s f vs j
                 \<longrightarrow> ss_bounds_cat s' = (ss_bounds_cat s)
                         [j := challenger_set inp f (ss_bounds_cat s ! j) vs]
                     \<and> ss_bounds_cont s' = ss_bounds_cont s
                     \<and> ss_indices s' = mask_and (ss_indices s)
                         (challenger_side_cat inp f (ss_bounds_cat s ! j) vs) (column (X inp) f))
            \<and> ((\<forall>j. \<not> shrink_due_cont inp s f t j \<and> \<not> shrink_due_cat inp s f vs j)
                 \<longrightarrow> region_of s' = region_of s)))"
proof (rule conjI)
  have "\<exists>k s1. first_pass draws inp = Some (Inr (k, s1)) \<and> state_ok inp s1 \<and> True"
    by (rule first_pass_total [where P = "\<lambda>_. True", OF assms]) simp_all
  then obtain k s1 where s1: "first_pass draws inp = Some (Inr (k, s1))" by blast
  have "\<exists>r. subspace_extraction draws inp = Some (Inr r) \<and> shrunk (region_of s1) r"
  proof (rule extraction_after_first [where P = "shrunk (region_of s1)", OF assms _ s1])
    fix i s s'
    assume "state_ok inp s" "shrunk (region_of s1) (region_of s)" "i < length (trees inp)"
      "traverse_tree inp False i s = Inr s'"
    then show "shrunk (region_of s1) (region_of s')"
      using shrunk_step [OF assms(1), of s i False s' "region_of s1"] by simp
  next
    show "shrunk (region_of s1) (region_of s1)" by (rule shrunk_refl)
  qed
  with s1 show "\<exists>k s1 r. first_pass draws inp = Some (Inr (k, s1))
           \<and> subspace_extraction draws inp = Some (Inr r) \<and> shrunk (region_of s1) r"
    by blast
next
  show "\<forall>s i f t vs l r.
         state_ok inp s \<and> i < length (trees inp) \<and> \<not> stop_update s ! i
         \<and> node_indices s ! i = Split f t vs l r \<longrightarrow>
         (\<exists>s'. traverse_tree inp False i s = Inr s' \<and> stop_update s' = stop_update s
            \<and> (node_indices s' = (node_indices s)[i := l] \<or> node_indices s' = (node_indices s)[i := r])
            \<and> (\<forall>j. shrink_due_cont inp s f t j
                 \<longrightarrow> ss_bounds_cont s' = (ss_bounds_cont s)
                         [j := store_bound inp (challenger_interval inp f t (ss_bounds_cont s ! j))]
                     \<and> ss_bounds_cat s' = ss_bounds_cat s
                     \<and> ss_indices s' = mask_and (ss_indices s)
                         (challenger_side_cont inp f t) (column (X inp) f))
            \<and> (\<forall>j. shrink_due_cat inp s f vs j
                 \<longrightarrow> ss_bounds_cat s' = (ss_bounds_cat s)
                         [j := challenger_set inp f (ss_bounds_cat s ! j) vs]
                     \<and> ss_bounds_cont s' = ss_bounds_cont s
                     \<and> ss_indices s' = mask_and (ss_indices s)
                         (challenger_side_cat inp f (ss_bounds_cat s ! j) vs) (column (X inp) f))
            \<and> ((\<forall>j. \<not> shrink_due_cont inp s f t j \<and> \<not> shrink_due_cat inp s f vs j)
                 \<longrightarrow> region_of s' = region_of s))"
    using no_min_check_visit [OF assms(1)] by blast
qed

text \<open>
  The theorem at a call with a tree of depth two, and at the visit of its second loop to
  the split below the root: the challenger's side keeps three points, more than
  \<open>num_min = 1\<close>, and the bound of dimension 1 becomes \<open>[1/2, 1]\<close>.
\<close>

theorem second_pass_only_shrinks_witness:
  "wf_input call_deep \<and> wf_draws call_deep (fixed_order [0])
   \<and> state_ok call_deep deep_below_root
   \<and> shrink_due_cont call_deep deep_below_root 1 (1/2) 1
   \<and> (\<exists>k s1 r. first_pass (fixed_order [0]) call_deep = Some (Inr (k, s1))
           \<and> subspace_extraction (fixed_order [0]) call_deep = Some (Inr r)
           \<and> shrunk (region_of s1) r)
   \<and> (\<exists>s'. traverse_tree call_deep False 0 deep_below_root = Inr s'
           \<and> stop_update s' = [False]
           \<and> ss_bounds_cont s' = [(0, 1), (1/2, 1)]
           \<and> ss_indices s' = [True, True, True, False])"
proof -
  have wf: "wf_input call_deep" by (simp add: wf_input_def call_deep_def)
  have dr: "wf_draws call_deep (fixed_order [0])"
    by (rule wf_draws_fixed) (auto simp: call_deep_def)
  have ok: "state_ok call_deep deep_below_root" by code_simp
  have pre: "0 < length (trees call_deep)" "\<not> stop_update deep_below_root ! 0"
    "node_indices deep_below_root ! 0 = Split 1 (1/2) [] Leaf Leaf"
    by (simp_all add: call_deep_def deep_below_root_def)
  have com: "shrink_due_cont call_deep deep_below_root 1 (1/2) 1" by code_simp
  have val: "(ss_bounds_cont deep_below_root)
        [1 := store_bound call_deep (challenger_interval call_deep 1 (1/2)
                (ss_bounds_cont deep_below_root ! 1))] = [(0, 1), (1/2, 1)]"
    "mask_and (ss_indices deep_below_root) (challenger_side_cont call_deep 1 (1/2))
        (column (X call_deep) 1) = [True, True, True, False]"
    "stop_update deep_below_root = [False]"
    by code_simp+
  from second_pass_only_shrinks [OF wf dr]
  have a: "\<exists>k s1 r. first_pass (fixed_order [0]) call_deep = Some (Inr (k, s1))
           \<and> subspace_extraction (fixed_order [0]) call_deep = Some (Inr r)
           \<and> shrunk (region_of s1) r" by blast
  from second_pass_only_shrinks [OF wf dr] ok pre
  obtain s' where s': "traverse_tree call_deep False 0 deep_below_root = Inr s'"
    "stop_update s' = stop_update deep_below_root"
    "\<forall>j. shrink_due_cont call_deep deep_below_root 1 (1/2) j
       \<longrightarrow> ss_bounds_cont s' = (ss_bounds_cont deep_below_root)
               [j := store_bound call_deep (challenger_interval call_deep 1 (1/2)
                       (ss_bounds_cont deep_below_root ! j))]
           \<and> ss_bounds_cat s' = ss_bounds_cat deep_below_root
           \<and> ss_indices s' = mask_and (ss_indices deep_below_root)
               (challenger_side_cont call_deep 1 (1/2)) (column (X call_deep) 1)"
    by blast
  from s'(3) com have "ss_bounds_cont s' = (ss_bounds_cont deep_below_root)
               [1 := store_bound call_deep (challenger_interval call_deep 1 (1/2)
                       (ss_bounds_cont deep_below_root ! 1))]"
    "ss_indices s' = mask_and (ss_indices deep_below_root)
               (challenger_side_cont call_deep 1 (1/2)) (column (X call_deep) 1)"
    by blast+
  with val s'(1,2) have "\<exists>s'. traverse_tree call_deep False 0 deep_below_root = Inr s'
           \<and> stop_update s' = [False]
           \<and> ss_bounds_cont s' = [(0, 1), (1/2, 1)]
           \<and> ss_indices s' = [True, True, True, False]" by auto
  with wf dr ok com a show ?thesis by blast
qed

text \<open>
  The bounds are not left alone by the second loop: at the same call the first loop ends
  with the full-space bounds, the second loop runs, and the bound of dimension 1 returned
  is \<open>[1/2, 1]\<close>.
\<close>

theorem second_pass_changes_bounds_counterexample:
  "wf_input call_deep \<and> wf_draws call_deep (fixed_order [0])
   \<and> second_pass_runs (fixed_order [0]) call_deep
   \<and> first_pass_bounds (fixed_order [0]) call_deep = Some ([(0, 1), (0, 1)], [[]])
   \<and> returned_bounds (fixed_order [0]) call_deep = Some ([(0, 1), (1/2, 1)], [[]])
   \<and> first_pass_bounds (fixed_order [0]) call_deep \<noteq> returned_bounds (fixed_order [0]) call_deep"
proof -
  have wf: "wf_input call_deep" by (simp add: wf_input_def call_deep_def)
  have dr: "wf_draws call_deep (fixed_order [0])"
    by (rule wf_draws_fixed) (auto simp: call_deep_def)
  have r: "second_pass_runs (fixed_order [0]) call_deep" by code_simp
  have f: "first_pass_bounds (fixed_order [0]) call_deep = Some ([(0, 1), (0, 1)], [[]])"
    by code_simp
  have e: "returned_bounds (fixed_order [0]) call_deep = Some ([(0, 1), (1/2, 1)], [[]])"
    by code_simp
  from f e have "first_pass_bounds (fixed_order [0]) call_deep \<noteq> returned_bounds (fixed_order [0]) call_deep"
    by simp
  with wf dr r f e show ?thesis by blast
qed

text \<open>
  Claim C5, as amended. For every well-formed call of \<open>subspace_extraction\<close> in which
  \<open>num_min > num_max\<close> and \<open>num_min\<close> is at least the number of rows of \<open>X\<close>, the call
  returns, without an error, the full-space region (the full-space bounds and the full
  domains) together with the all-true mask.
\<close>

theorem full_region_when_few_points:
  assumes "wf_input inp" and "wf_draws inp draws" and "num_max inp < num_min inp"
    and "int (length (X inp)) \<le> num_min inp"
  shows "subspace_extraction draws inp
         = Some (Inr (full_bounds_cont inp, full_bounds_cat inp, replicate (length (X inp)) True))"
proof -
  let ?full = "(full_bounds_cont inp, full_bounds_cat inp, replicate (length (X inp)) True)"
  have "\<exists>r. subspace_extraction draws inp = Some (Inr r) \<and> r = ?full"
  proof (rule extraction_total [where P = "\<lambda>r. r = ?full", OF assms(1,2)])
    fix chk i s s'
    assume "state_ok inp s" "region_of s = ?full" "i < length (trees inp)"
      "traverse_tree inp chk i s = Inr s'"
    then show "region_of s' = ?full"
      using keep_step [OF assms(1), of s i chk s' "full_bounds_cont inp" "full_bounds_cat inp"
          "replicate (length (X inp)) True"] assms(4)
      by (simp add: region_of_def)
  qed simp
  then show ?thesis by simp
qed

text \<open>The theorem at a call with four observations, \<open>num_min = 4\<close> and \<open>num_max = 2\<close>.\<close>

theorem full_region_when_few_points_witness:
  "wf_input call_few_points \<and> wf_draws call_few_points (fixed_order [0])
   \<and> num_max call_few_points < num_min call_few_points
   \<and> int (length (X call_few_points)) \<le> num_min call_few_points
   \<and> subspace_extraction (fixed_order [0]) call_few_points
       = Some (Inr (full_bounds_cont call_few_points, full_bounds_cat call_few_points,
                    replicate (length (X call_few_points)) True))"
proof -
  have wf: "wf_input call_few_points" by (simp add: wf_input_def call_few_points_def)
  have dr: "wf_draws call_few_points (fixed_order [0])"
    by (rule wf_draws_fixed) (auto simp: call_few_points_def)
  have a: "num_max call_few_points < num_min call_few_points" by (simp add: call_few_points_def)
  have b: "int (length (X call_few_points)) \<le> num_min call_few_points"
    by (simp add: call_few_points_def)
  from full_region_when_few_points [OF wf dr a b] wf dr a b show ?thesis by blast
qed

text \<open>
  \<open>num_min > num_max\<close> alone does not give the full region: nothing in the code compares
  the two, and with more than \<open>num_min\<close> observations the first loop shrinks the region
  as usual.
\<close>

theorem min_above_max_shrinks_counterexample:
  "wf_input call_min_above_max \<and> wf_draws call_min_above_max (fixed_order [0])
   \<and> num_max call_min_above_max < num_min call_min_above_max
   \<and> subspace_extraction (fixed_order [0]) call_min_above_max
       = Some (Inr ([(1/2, 1)], [[]], [True, True, False, False]))
   \<and> full_bounds_cont call_min_above_max = [(0, 1)]"
proof -
  have wf: "wf_input call_min_above_max" by (simp add: wf_input_def call_min_above_max_def)
  have dr: "wf_draws call_min_above_max (fixed_order [0])"
    by (rule wf_draws_fixed) (auto simp: call_min_above_max_def)
  have a: "num_max call_min_above_max < num_min call_min_above_max"
    by (simp add: call_min_above_max_def)
  have ev: "subspace_extraction (fixed_order [0]) call_min_above_max
       = Some (Inr ([(1/2, 1)], [[]], [True, True, False, False]))" by code_simp
  have fb: "full_bounds_cont call_min_above_max = [(0, 1)]" by code_simp
  from wf dr a ev fb show ?thesis by blast
qed

text \<open>
  Claim C8 says that every random choice of the core, the order in which the trees are
  visited included, is drawn from the generator the chooser owns (\<open>rng\<close>), so that the
  seed and the history determine the regions. \<open>subspace_extraction\<close> takes no generator:
  it shuffles with \<open>np.random.shuffle\<close>, the global generator of numpy, which the model
  passes as \<open>draws\<close>. The same call, with the same observations, challenger and forest,
  returns different regions for two outcomes of that shuffle.
\<close>

theorem region_depends_on_global_shuffle:
  "subspace_extraction (fixed_order [0, 1]) call_two_trees
       = Some (Inr ([(1/2, 1), (0, 1)], [[]], [True, True, False, False]))
   \<and> subspace_extraction (fixed_order [1, 0]) call_two_trees
       = Some (Inr ([(0, 1), (1/2, 1)], [[]], [True, False, True, False]))"
proof -
  have e1: "subspace_extraction (fixed_order [0, 1]) call_two_trees
       = Some (Inr ([(1/2, 1), (0, 1)], [[]], [True, True, False, False]))" by code_simp
  have e2: "subspace_extraction (fixed_order [1, 0]) call_two_trees
       = Some (Inr ([(0, 1), (1/2, 1)], [[]], [True, False, True, False]))" by code_simp
  from e1 e2 show ?thesis by blast
qed

text \<open>The call is well-formed, and both orders are permutations of the two trees.\<close>

lemma call_two_trees_well_formed:
  "wf_input call_two_trees
   \<and> wf_draws call_two_trees (fixed_order [0, 1]) \<and> wf_draws call_two_trees (fixed_order [1, 0])"
proof -
  have wf: "wf_input call_two_trees" by (simp add: wf_input_def call_two_trees_def)
  have d1: "wf_draws call_two_trees (fixed_order [0, 1])"
    by (rule wf_draws_fixed) (auto simp: call_two_trees_def)
  have d2: "wf_draws call_two_trees (fixed_order [1, 0])"
    by (rule wf_draws_fixed) (auto simp: call_two_trees_def)
  from wf d1 d2 show ?thesis by blast
qed

section \<open>The claims about choose\_next\<close>

text \<open>
  Claim C6 says that an exhausted trust-region trial with a negative improvement halves
  \<open>failcount_BOinG\<close> and switches to region search exactly when the improvement exceeds
  the fixed fraction of the best value held before the trial, or the product of the
  coordinate differences reaches \<open>ss_threshold\<close>. The code overwrites \<open>optimal_value\<close>
  (line 263) before it evaluates the test (line 270), so it compares with the fraction of
  the new best value; the test of the region-search branch (line 353) is evaluated before
  the update (line 357). Here the best value held is \<open>1001.0005\<close>, the trust region found
  \<open>1000\<close> at a point that differs in one coordinate only: the improvement \<open>-1.0005\<close>
  does not exceed a thousandth of \<open>1001.0005\<close> and the product of the differences is
  \<open>0\<close>, so the test of the claim fails, yet the code switches.
\<close>

theorem switch_tested_against_new_best:
  "exhausted (trial_env (two_observations (10010005/10000) 1000 [Some (1/2), Some (6/10)]))
      (turbo_chooser (10010005/10000) 0 [10010005/10000, 1000])
      (two_observations (10010005/10000) 1000 [Some (1/2), Some (6/10)])
   \<and> improvement (trial_env (two_observations (10010005/10000) 1000 [Some (1/2), Some (6/10)]))
      (turbo_chooser (10010005/10000) 0 [10010005/10000, 1000])
      (two_observations (10010005/10000) 1000 [Some (1/2), Some (6/10)]) = - (10005/10000)
   \<and> \<not> qualifying_improvement_spec (10010005/10000) (- (10005/10000)) [Some 0, Some (1/10)] ((1/10) ^ 2)
   \<and> switched_by_test (trial_env (two_observations (10010005/10000) 1000 [Some (1/2), Some (6/10)]))
      (turbo_chooser (10010005/10000) 0 [10010005/10000, 1000])
      (two_observations (10010005/10000) 1000 [Some (1/2), Some (6/10)])
   \<and> outcome (choose_next (trial_env (two_observations (10010005/10000) 1000 [Some (1/2), Some (6/10)]))
      (turbo_chooser (10010005/10000) 0 [10010005/10000, 1000]))
     = Some (False, 2, - 1, TuRBO_challengers, [Turbo_adjust_length, Rng_random, Restart_TuRBOinG])"
  by code_simp

text \<open>
  Claim C7, as amended. In a trust-region trial of \<open>choose_next\<close>, \<open>failcount_TurBO\<close> is
  incremented only when the optimizer is exhausted and the improvement is not negative,
  hence never in a trial in which the qualifying-improvement test switched to region
  search; the improvement is the least value the optimizer has observed minus the best
  value the chooser holds. In that case (exhausted, improvement not negative) the trial
  returns, increments the counter, draws a uniform value from \<open>rng\<close> against a tenth of the incremented counter
  and, when the draw is below, halves \<open>failcount_BOinG\<close> and switches to region search
  without a restart, and otherwise restarts the trust-region optimizer and stays in
  trust-region mode. Every trial that starts in trust-region mode returns the challengers
  of the trust-region optimizer, also when it switches: the switch takes effect with the
  next trial.
\<close>

theorem TuRBO_trial_increment_and_return:
  "(\<forall>tr. choose_next_TuRBO env c d = Inr tr \<longrightarrow>
        returned tr = TuRBO_challengers
        \<and> (failcount_TurBO c < failcount_TurBO (chooser_after tr)
             \<longrightarrow> exhausted env c d \<and> \<not> improvement env c d < 0))
   \<and> (exhausted env c d \<and> ss_y (adjusted env c d) \<noteq> [] \<and> \<not> improvement env c d < 0 \<longrightarrow>
        (\<exists>tr. choose_next_TuRBO env c d = Inr tr
           \<and> failcount_TurBO (chooser_after tr) = failcount_TurBO c + 1
           \<and> (if rng c 0 < (1 / 10) * real_of_int (failcount_TurBO c + 1)
               then \<not> run_TuRBO (chooser_after tr)
                    \<and> failcount_BOinG (chooser_after tr) = failcount_BOinG c div 2
                    \<and> Restart_TuRBOinG \<notin> set (calls tr)
               else run_TuRBO (chooser_after tr) = run_TuRBO c
                    \<and> failcount_BOinG (chooser_after tr) = failcount_BOinG c
                    \<and> Restart_TuRBOinG \<in> set (calls tr))))"
proof -
  let ?c1 = "c\<lparr>turbo_optimizer := adjusted env c d\<rparr>"
  let ?c2 = "?c1\<lparr>failcount_TurBO := failcount_TurBO c + 1\<rparr>"
  have ret: "returned tr = TuRBO_challengers" if tr: "choose_next_TuRBO env c d = Inr tr" for tr
    using tr
    by (auto simp: choose_next_TuRBO_def Let_def continue_TuRBO_fields
          split: if_splits sum.splits)
  have inc: "exhausted env c d \<and> \<not> improvement env c d < 0"
    if tr: "choose_next_TuRBO env c d = Inr tr"
      and gt: "failcount_TurBO c < failcount_TurBO (chooser_after tr)" for tr
  proof (cases "init_configs (turbo_optimizer c) = []")
    case False
    with tr have "tr = continue_TuRBO env d [] c" by (simp add: choose_next_TuRBO_def)
    with gt show ?thesis by (simp add: continue_TuRBO_fields)
  next
    case ini: True
    show ?thesis
    proof (cases "length_tr (adjusted env c d) < length_min (adjusted env c d)")
      case False
      with tr ini have "tr = continue_TuRBO env d [Turbo_adjust_length] ?c1"
        by (simp add: choose_next_TuRBO_def adjusted_def Let_def)
      with gt show ?thesis by (simp add: continue_TuRBO_fields)
    next
      case ex: True
      with ini have e: "exhausted env c d" by (simp add: exhausted_def)
      have "\<not> improvement env c d < 0"
      proof
        assume neg: "improvement env c d < 0"
        from tr ini ex obtain c2 where
          c2: "check_improvement ?c1 d (Min (set (ss_y (adjusted env c d)))) = Inr c2"
          and fc: "failcount_TurBO (chooser_after tr) = failcount_TurBO c2"
          by (auto simp: choose_next_TuRBO_def adjusted_def Let_def continue_TuRBO_fields
                split: if_splits sum.splits)
        from neg have "Min (set (ss_y (adjusted env c d))) - optimal_value ?c1 < 0"
          by (simp add: improvement_def)
        from check_improvement_gain [OF this c2] have "failcount_TurBO c2 \<le> failcount_TurBO c"
          by simp
        with fc gt show False by simp
      qed
      with e show ?thesis by simp
    qed
  qed
  have otherwise: "\<exists>tr. choose_next_TuRBO env c d = Inr tr
           \<and> failcount_TurBO (chooser_after tr) = failcount_TurBO c + 1
           \<and> (if rng c 0 < (1 / 10) * real_of_int (failcount_TurBO c + 1)
               then \<not> run_TuRBO (chooser_after tr)
                    \<and> failcount_BOinG (chooser_after tr) = failcount_BOinG c div 2
                    \<and> Restart_TuRBOinG \<notin> set (calls tr)
               else run_TuRBO (chooser_after tr) = run_TuRBO c
                    \<and> failcount_BOinG (chooser_after tr) = failcount_BOinG c
                    \<and> Restart_TuRBOinG \<in> set (calls tr))"
    if a: "exhausted env c d \<and> ss_y (adjusted env c d) \<noteq> [] \<and> \<not> improvement env c d < 0"
  proof -
  from a have ng: "\<not> Min (set (ss_y (adjusted env c d))) - optimal_value ?c1 < 0"
    by (simp add: improvement_def)
  have ci: "check_improvement ?c1 d (Min (set (ss_y (adjusted env c d)))) = Inr ?c2"
    using check_improvement_no_gain [OF ng] by simp
  show ?thesis
    using a ci
    by (simp add: choose_next_TuRBO_def exhausted_def adjusted_def Let_def continue_TuRBO_fields)
  qed
  from ret inc otherwise show ?thesis by blast
qed

text \<open>
  The theorem at a trial whose trust region is exhausted without an improvement: the
  counter goes from 3 to 4, the draw \<open>1/2\<close> is not below \<open>0.4\<close>, the optimizer is
  restarted.
\<close>

theorem TuRBO_trial_increment_and_return_witness:
  "exhausted (trial_env (two_observations 10 12 [Some (9/10), Some (9/10)]))
      (turbo_chooser 10 3 [10, 12]) (two_observations 10 12 [Some (9/10), Some (9/10)])
   \<and> ss_y (adjusted (trial_env (two_observations 10 12 [Some (9/10), Some (9/10)]))
      (turbo_chooser 10 3 [10, 12]) (two_observations 10 12 [Some (9/10), Some (9/10)])) \<noteq> []
   \<and> \<not> improvement (trial_env (two_observations 10 12 [Some (9/10), Some (9/10)]))
      (turbo_chooser 10 3 [10, 12]) (two_observations 10 12 [Some (9/10), Some (9/10)]) < 0
   \<and> (\<exists>tr. choose_next_TuRBO (trial_env (two_observations 10 12 [Some (9/10), Some (9/10)]))
            (turbo_chooser 10 3 [10, 12]) (two_observations 10 12 [Some (9/10), Some (9/10)]) = Inr tr
          \<and> returned tr = TuRBO_challengers
          \<and> failcount_TurBO (chooser_after tr) = 4
          \<and> run_TuRBO (chooser_after tr)
          \<and> Restart_TuRBOinG \<in> set (calls tr))"
proof -
  let ?d = "two_observations 10 12 [Some (9/10), Some (9/10)]"
  let ?env = "trial_env ?d"
  let ?c = "turbo_chooser 10 3 [10, 12]"
  have e: "exhausted ?env ?c ?d" by code_simp
  have y: "ss_y (adjusted ?env ?c ?d) \<noteq> []" by code_simp
  have i: "\<not> improvement ?env ?c ?d < 0" by code_simp
  have f: "failcount_TurBO ?c = 3" "run_TuRBO ?c" by (simp_all add: turbo_chooser_def)
  have r: "\<not> rng ?c 0 < (1 / 10) * real_of_int (failcount_TurBO ?c + 1)"
    by (simp add: turbo_chooser_def constant_rng_def)
  from TuRBO_trial_increment_and_return [of ?env ?c ?d] e y i
  obtain tr where tr: "choose_next_TuRBO ?env ?c ?d = Inr tr"
    "failcount_TurBO (chooser_after tr) = failcount_TurBO ?c + 1"
    "if rng ?c 0 < (1 / 10) * real_of_int (failcount_TurBO ?c + 1)
     then \<not> run_TuRBO (chooser_after tr)
          \<and> failcount_BOinG (chooser_after tr) = failcount_BOinG ?c div 2
          \<and> Restart_TuRBOinG \<notin> set (calls tr)
     else run_TuRBO (chooser_after tr) = run_TuRBO ?c
          \<and> failcount_BOinG (chooser_after tr) = failcount_BOinG ?c
          \<and> Restart_TuRBOinG \<in> set (calls tr)"
    by blast
  from tr(3) r f have k: "run_TuRBO (chooser_after tr)" "Restart_TuRBOinG \<in> set (calls tr)"
    by simp_all
  from TuRBO_trial_increment_and_return [of ?env ?c ?d] tr(1)
  have "returned tr = TuRBO_challengers" by blast
  with e y i tr(1,2) f k show ?thesis by auto
qed

text \<open>
  The draw and the restart are not confined to the trials without a qualifying
  improvement. Here the trust region found \<open>5\<close> against the best value \<open>10\<close>, far from the
  previous best point: the test switches to region search, and the same trial still draws
  (\<open>1/2\<close> against \<open>0.2\<close>), restarts the trust-region optimizer and returns its challengers.
\<close>

theorem restart_after_switch_counterexample:
  "exhausted (trial_env (two_observations 10 5 [Some (9/10), Some (9/10)]))
      (turbo_chooser 10 3 [10, 5]) (two_observations 10 5 [Some (9/10), Some (9/10)])
   \<and> qualifying_improvement_spec 10 (- 5) [Some (4/10), Some (4/10)] ((1/10) ^ 2)
   \<and> switched_by_test (trial_env (two_observations 10 5 [Some (9/10), Some (9/10)]))
      (turbo_chooser 10 3 [10, 5]) (two_observations 10 5 [Some (9/10), Some (9/10)])
   \<and> outcome (choose_next (trial_env (two_observations 10 5 [Some (9/10), Some (9/10)]))
      (turbo_chooser 10 3 [10, 5]))
     = Some (False, 2, 2, TuRBO_challengers, [Turbo_adjust_length, Rng_random, Restart_TuRBOinG])"
  by code_simp

text \<open>
  Claim C10. If no budget level of the run history has \<open>min_samples_model\<close> observations
  (whether the history is empty or not), \<open>_collect_all_data_to_train_model\<close> returns empty
  arrays, and \<open>choose_next\<close>, for a chooser that is not in trust-region mode, returns
  exactly one randomly sampled candidate, without a call to the model or to the
  extraction and without a change of its state. Trust-region mode is entered only in a
  trial that found data (line 375, after the return of line 303).
\<close>

theorem too_few_samples_random_search:
  assumes "too_few_samples env c"
    and "\<not> (do_switching c \<and> run_TuRBO c)"
  shows "collect_all_data_to_train_model env c = (c, empty_data)
         \<and> choose_next env c = Inr \<lparr>chooser_after = c, returned = Random_search 1, calls = []\<rparr>"
proof -
  have col: "collect_all_data_to_train_model env c = (c, empty_data)"
    unfolding collect_all_data_to_train_model_def
    by (rule collect_from_budgets_none) (use assms(1) in \<open>auto simp: too_few_samples_def\<close>)
  with assms(2) show ?thesis by (auto simp: choose_next_def empty_data_def)
qed

text \<open>
  The theorem at a chooser whose history has one run at each of two budgets, each with two
  observations after the transformation, and whose model asks for three.
\<close>

theorem too_few_samples_random_search_witness:
  "runhistory sparse_chooser \<noteq> []
   \<and> too_few_samples (trial_env (two_observations 10 5 [Some (9/10), Some (9/10)])) sparse_chooser
   \<and> \<not> (do_switching sparse_chooser \<and> run_TuRBO sparse_chooser)
   \<and> collect_all_data_to_train_model (trial_env (two_observations 10 5 [Some (9/10), Some (9/10)]))
         sparse_chooser = (sparse_chooser, empty_data)
   \<and> choose_next (trial_env (two_observations 10 5 [Some (9/10), Some (9/10)])) sparse_chooser
       = Inr \<lparr>chooser_after = sparse_chooser, returned = Random_search 1, calls = []\<rparr>"
proof -
  let ?env = "trial_env (two_observations 10 5 [Some (9/10), Some (9/10)])"
  have h: "runhistory sparse_chooser \<noteq> []" by (simp add: sparse_chooser_def)
  have a: "too_few_samples ?env sparse_chooser"
    by (simp add: too_few_samples_def sparse_chooser_def trial_env_def two_observations_def)
  have b: "\<not> (do_switching sparse_chooser \<and> run_TuRBO sparse_chooser)"
    by (simp add: sparse_chooser_def)
  from too_few_samples_random_search [OF a b] h a b show ?thesis by blast
qed

section \<open>The claim about the acquisition function call\<close>

text \<open>
  Claim C9, as amended. For every list of configurations and every \<open>_compute\<close> that
  returns a two-dimensional floating-point array, \<open>__call__\<close> returns the array of
  \<open>_compute\<close>, of the same dtype, with every row that holds a NaN replaced, in each of its
  entries, by \<open>-np.finfo(float).max\<close> as the dtype of the array stores it (the worst
  finite double in a float64 or long double array, negative infinity in a float32 or
  float16 array), and every other row as it is: a positive or negative infinity that
  \<open>_compute\<close> produced in a row without NaN is returned unchanged. The call itself raises
  nothing.
\<close>

theorem call_replaces_nan_rows_only:
  "acquisition_call compute configurations
   = (compute configurations)\<lparr>acq_rows :=
       map (\<lambda>row. if NaN \<in> set row
                  then map (\<lambda>w. worst_score (acq_dtype (compute configurations))) row
                  else row)
         (acq_rows (compute configurations))\<rparr>"
  by (rule acquisition_call_by_rows)

text \<open>
  The infinities are not replaced: of the float64 scores \<open>+inf, NaN, -inf, 1\<close> only the
  NaN becomes the worst score.
\<close>

theorem infinite_scores_kept_counterexample:
  "acquisition_call (constant_compute Float64 [[PInf], [NaN], [NInf], [Finite 1]]) ()
   = \<lparr>acq_dtype = Float64, acq_rows = [[PInf], [Finite (- float_max)], [NInf], [Finite 1]]\<rparr>"
  by (simp add: acquisition_call_by_rows constant_compute_def worst_score_def)

text \<open>In a float32 array the NaN becomes negative infinity.\<close>

lemma float32_nan_becomes_negative_infinity:
  "acquisition_call (constant_compute Float32 [[NaN], [Finite 1]]) ()
   = \<lparr>acq_dtype = Float32, acq_rows = [[NInf], [Finite 1]]\<rparr>"
  by (simp add: acquisition_call_by_rows constant_compute_def worst_score_def)

end
